theory Spec2Isabelle
  imports Main
begin

section \<open>Python values used by the JCSV parser and writer\<close>

text \<open>
  A Python \<open>str\<close> is modelled as a \<open>string\<close>, one \<open>char\<close> per code point (code points
  below 256).  A Python \<open>dict\<close> is an association list in insertion order with distinct
  keys: assigning to an existing key keeps the key's position and replaces its value.
  Exceptions are values of type \<open>error\<close>; a function that can raise returns
  \<open>error + 'a\<close>.
\<close>

datatype error =
    KeyError string
  | ValueError string
  | IndexError
  | TypeError
  | PandasError string
  | Unmodelled

definition nl :: char where
  "nl = CHR 0x0A"

definition dquote :: char where
  "dquote = CHR 0x22"

definition squote :: char where
  "squote = CHR 0x27"

text \<open>\<open>str.isspace\<close> on the code points below 256.\<close>

definition is_space :: "char \<Rightarrow> bool" where
  "is_space c \<longleftrightarrow> c \<in> set [CHR 0x09, CHR 0x0A, CHR 0x0B, CHR 0x0C, CHR 0x0D,
     CHR 0x1C, CHR 0x1D, CHR 0x1E, CHR 0x1F, CHR 0x20, CHR 0x85, CHR 0xA0]"

definition lstrip :: "string \<Rightarrow> string" where
  "lstrip s = dropWhile is_space s"

definition rstrip :: "string \<Rightarrow> string" where
  "rstrip s = rev (dropWhile is_space (rev s))"

definition strip :: "string \<Rightarrow> string" where
  "strip s = rstrip (lstrip s)"

text \<open>\<open>s.rstrip('\n')\<close>\<close>

definition rstrip_nl :: "string \<Rightarrow> string" where
  "rstrip_nl s = rev (dropWhile (\<lambda>c. c = nl) (rev s))"

definition startswith :: "string \<Rightarrow> string \<Rightarrow> bool" where
  "startswith s p \<longleftrightarrow> take (length p) s = p"

definition endswith :: "string \<Rightarrow> string \<Rightarrow> bool" where
  "endswith s p \<longleftrightarrow> length p \<le> length s \<and> drop (length s - length p) s = p"

text \<open>\<open>s[1:-1]\<close>\<close>

definition slice_inner :: "string \<Rightarrow> string" where
  "slice_inner s = butlast (tl s)"

text \<open>\<open>s.split(c)\<close> for a one-character separator.\<close>

fun split_on :: "char \<Rightarrow> string \<Rightarrow> string list" where
  "split_on c [] = [[]]"
| "split_on c (x # xs) =
     (if x = c then [] # split_on c xs
      else (case split_on c xs of
              [] \<Rightarrow> [[x]]
            | p # ps \<Rightarrow> (x # p) # ps))"

text \<open>\<open>s.split(c, 1)\<close> when \<open>c\<close> occurs in \<open>s\<close>: the text before and after the first \<open>c\<close>.\<close>

definition split_first :: "char \<Rightarrow> string \<Rightarrow> string \<times> string" where
  "split_first c s = (takeWhile (\<lambda>x. x \<noteq> c) s, tl (dropWhile (\<lambda>x. x \<noteq> c) s))"

text \<open>\<open>sep.join(xs)\<close>\<close>

fun join :: "string \<Rightarrow> string list \<Rightarrow> string" where
  "join sep [] = []"
| "join sep [x] = x"
| "join sep (x # y # ys) = x @ sep @ join sep (y # ys)"

text \<open>\<open>d[k] = v\<close> and \<open>dict(pairs)\<close>\<close>

fun dict_set :: "('k \<times> 'v) list \<Rightarrow> 'k \<Rightarrow> 'v \<Rightarrow> ('k \<times> 'v) list" where
  "dict_set [] k v = [(k, v)]"
| "dict_set ((k', v') # d) k v =
     (if k' = k then (k, v) # d else (k', v') # dict_set d k v)"

definition dict_of :: "('k \<times> 'v) list \<Rightarrow> ('k \<times> 'v) list" where
  "dict_of kvs = foldl (\<lambda>d (k, v). dict_set d k v) [] kvs"

section \<open>Metadata grammar (\<open>example_jcsv_parser.py\<close>)\<close>

text \<open>
  \<open>_split_top_commas\<close>: the loop over the characters keeps \<open>parts\<close>, \<open>buf\<close> and the
  bracket depth, which is a signed counter.
\<close>

fun split_top_loop :: "string \<Rightarrow> string list \<Rightarrow> string \<Rightarrow> int \<Rightarrow> string list" where
  "split_top_loop [] parts buf depth = parts @ [strip buf]"
| "split_top_loop (ch # s) parts buf depth =
     (let depth' = (if ch = CHR ''['' then depth + 1
                    else if ch = CHR '']'' then depth - 1
                    else depth)
      in if ch = CHR '','' \<and> depth' = 0
         then split_top_loop s (parts @ [strip buf]) [] depth'
         else split_top_loop s parts (buf @ [ch]) depth')"

definition split_top_commas :: "string \<Rightarrow> string list" where
  "split_top_commas s = split_top_loop s [] [] 0"

text \<open>A metadata value: a scalar, a list, or (under key \<open>dtypes\<close>) a column-to-type dict.\<close>

datatype mdvalue =
    Scalar string
  | Items "string list"
  | DTypeMap "(string \<times> string) list"

type_synonym metadata = "(string \<times> mdvalue) list"

definition is_quoted :: "string \<Rightarrow> bool" where
  "is_quoted it \<longleftrightarrow>
     (startswith it [dquote] \<and> endswith it [dquote]) \<or>
     (startswith it [squote] \<and> endswith it [squote])"

definition unquote :: "string \<Rightarrow> string" where
  "unquote it = (if is_quoted it then slice_inner it else it)"

definition parse_value :: "string \<Rightarrow> mdvalue" where
  "parse_value val =
     (if startswith val ''['' \<and> endswith val '']''
      then Items (map (\<lambda>it. unquote (strip it))
                      (split_top_commas (strip (slice_inner val))))
      else Scalar (unquote val))"

fun parse_tokens :: "metadata \<Rightarrow> string list \<Rightarrow> metadata" where
  "parse_tokens md [] = md"
| "parse_tokens md (token # ts) =
     (if CHR ''='' \<notin> set token then parse_tokens md ts
      else (case split_first (CHR ''='') token of
              (key, val) \<Rightarrow>
                parse_tokens (dict_set md (strip key) (parse_value (strip val))) ts))"

text \<open>\<open>for item in v\<close>: a list yields its items, a string its characters, a dict its keys.\<close>

fun iterate :: "mdvalue \<Rightarrow> string list" where
  "iterate (Scalar s) = map (\<lambda>c. [c]) s"
| "iterate (Items xs) = xs"
| "iterate (DTypeMap m) = map fst m"

fun dtype_items :: "(string \<times> string) list \<Rightarrow> string list \<Rightarrow> (string \<times> string) list" where
  "dtype_items dt [] = dt"
| "dtype_items dt (item # items) =
     (if CHR '':'' \<in> set item
      then (case split_first (CHR '':'') item of
              (col, typ) \<Rightarrow> dtype_items (dict_set dt (strip col) (strip typ)) items)
      else dtype_items dt items)"

definition parse_metadata :: "string \<Rightarrow> metadata" where
  "parse_metadata s =
     (let md = parse_tokens [] (split_top_commas s)
      in case map_of md ''dtypes'' of
           None \<Rightarrow> md
         | Some v \<Rightarrow> dict_set md ''dtypes'' (DTypeMap (dtype_items [] (iterate v))))"

section \<open>Tables\<close>

text \<open>
  A pandas \<open>DataFrame\<close> as the parser and the writer see it: the number of rows
  (\<open>len(df)\<close>) and the columns in order, each with its name, its dtype and its cells.
  A cell that the resolver has replaced by another table holds that table's name: the
  document's table map is the arena, so the handle is shared and cycles are harmless.
\<close>

datatype dtype = DInt64 | DNullableInt64 | DFloat64 | DObject | DBool

text \<open>\<open>CFloat m e\<close> is the floating-point cell read from the decimal \<open>m / 10 ^ e\<close>.\<close>

datatype cell =
    CStr string
  | CInt int
  | CFloat int nat
  | CNull
  | CRef string

record column =
  col_name :: string
  col_dtype :: dtype
  col_cells :: "cell list"

record dataframe =
  df_len :: nat
  df_columns :: "column list"

type_synonym tables = "(string \<times> dataframe) list"

text \<open>The three library calls the repository makes on tables are parameters.\<close>

type_synonym csv_reader = "string \<Rightarrow> error + dataframe"
type_synonym caster = "dataframe \<Rightarrow> (string \<times> string) list \<Rightarrow> error + dataframe"
type_synonym csv_writer = "dataframe \<Rightarrow> error + string"

definition column_names :: "dataframe \<Rightarrow> string list" where
  "column_names df = map col_name (df_columns df)"

section \<open>Reading lines\<close>

text \<open>
  \<open>open(path, 'r')\<close> translates \<open>\r\n\<close> and \<open>\r\<close> to \<open>\n\<close>; \<open>readlines\<close> cuts after
  every \<open>\n\<close> and keeps it.
\<close>

fun universal_newlines :: "string \<Rightarrow> string" where
  "universal_newlines [] = []"
| "universal_newlines [c] = [if c = CHR 0x0D then nl else c]"
| "universal_newlines (c # d # s) =
     (if c = CHR 0x0D
      then (if d = nl then nl # universal_newlines s else nl # universal_newlines (d # s))
      else c # universal_newlines (d # s))"

fun keepends :: "string \<Rightarrow> string list" where
  "keepends [] = []"
| "keepends (c # s) =
     (if c = nl then [nl] # keepends s
      else (case keepends s of
              [] \<Rightarrow> [[c]]
            | l # ls \<Rightarrow> (c # l) # ls))"

definition readlines :: "string \<Rightarrow> string list" where
  "readlines text = keepends (universal_newlines text)"

section \<open>Manifest reader\<close>

definition is_digit :: "char \<Rightarrow> bool" where
  "is_digit c \<longleftrightarrow> c \<in> set ''0123456789''"

definition digit_val :: "char \<Rightarrow> nat" where
  "digit_val c = of_char c - 48"

definition digits_val :: "string \<Rightarrow> nat" where
  "digits_val s = foldl (\<lambda>a c. 10 * a + digit_val c) 0 s"

fun no_double_underscore :: "string \<Rightarrow> bool" where
  "no_double_underscore (a # b # s) =
     (\<not> (a = CHR ''_'' \<and> b = CHR ''_'') \<and> no_double_underscore (b # s))"
| "no_double_underscore _ = True"

text \<open>
  \<open>int(s)\<close> on a string: surrounding whitespace, one optional sign, decimal digits with
  single underscores between them; anything else raises \<open>ValueError\<close> (\<open>None\<close>), and so
  does a literal of more than 4300 digits, the default limit of \<open>int\<close> on strings.
\<close>

definition int_body_ok :: "string \<Rightarrow> bool" where
  "int_body_ok b \<longleftrightarrow>
     b \<noteq> [] \<and> list_all (\<lambda>c. is_digit c \<or> c = CHR ''_'') b \<and>
     hd b \<noteq> CHR ''_'' \<and> last b \<noteq> CHR ''_'' \<and> no_double_underscore b"

definition py_int :: "string \<Rightarrow> int option" where
  "py_int s =
     (let t = strip s;
          neg = startswith t ''-'' \<and> t \<noteq> [];
          b = (if t \<noteq> [] \<and> (hd t = CHR ''-'' \<or> hd t = CHR ''+'') then tl t else t)
      in if int_body_ok b \<and> length (filter (\<lambda>c. c \<noteq> CHR ''_'') b) \<le> 4300
         then Some ((if neg then - 1 else 1) *
                    int (digits_val (filter (\<lambda>c. c \<noteq> CHR ''_'') b)))
         else None)"

type_synonym manifest_map = "(string \<times> int) list"

text \<open>
  The row loop.  In \<open>manifest_map[row['table']] = int(row['start_line'])\<close> Python
  evaluates the right-hand side first.
\<close>

fun manifest_rows ::
  "string list \<Rightarrow> string list \<Rightarrow> manifest_map \<Rightarrow> error + (manifest_map \<times> string list)" where
  "manifest_rows cols [] mm = Inr (mm, [])"
| "manifest_rows cols (l # ls) mm =
     (let ln = strip l
      in if ln = [] \<or> startswith ln ''#'' then Inr (mm, l # ls)
         else
           (let vals = map strip (split_on (CHR '','') ln);
                row = dict_of (zip cols vals)
            in case map_of row ''start_line'' of
                 None \<Rightarrow> Inl (KeyError ''start_line'')
               | Some sl \<Rightarrow>
                   (case py_int sl of
                      None \<Rightarrow> Inl (ValueError sl)
                    | Some n \<Rightarrow>
                        (case map_of row ''table'' of
                           None \<Rightarrow> Inl (KeyError ''table'')
                         | Some t \<Rightarrow> manifest_rows cols ls (dict_set mm t n)))))"

definition is_blank :: "string \<Rightarrow> bool" where
  "is_blank l \<longleftrightarrow> strip l = []"

text \<open>
  Returns the manifest map and the lines from index \<open>idx\<close> on, where the block scanner
  starts.  \<open>lines[idx]\<close> after a final \<open>#manifest\<close> line raises \<open>IndexError\<close>.
\<close>

definition parse_manifest :: "string list \<Rightarrow> error + (manifest_map \<times> string list)" where
  "parse_manifest lines =
     (case dropWhile is_blank lines of
        [] \<Rightarrow> Inr ([], [])
      | l # ls \<Rightarrow>
          if strip l = ''#manifest''
          then (case ls of
                  [] \<Rightarrow> Inl IndexError
                | h # ls' \<Rightarrow> manifest_rows (map strip (split_on (CHR '','') (strip h))) ls' [])
          else Inr ([], l # ls))"

section \<open>Block scanner and table builder\<close>

definition is_ident_char :: "char \<Rightarrow> bool" where
  "is_ident_char c \<longleftrightarrow>
     c \<in> set ''ABCDEFGHIJKLMNOPQRSTUVWXYZabcdefghijklmnopqrstuvwxyz0123456789_''"

text \<open>
  \<open>header_re.match(line)\<close> for \<open>^#([A-Za-z0-9_]+)(\{.*\})?\s*$\<close>: the groups 1 and 2.
  Group 1 is greedy and what follows it is not an identifier character, so it is the
  longest identifier prefix; \<open>.\<close> does not match a newline; group 2 is greedy, so it ends
  at the last \<open>}\<close>, which only whitespace may follow.
\<close>

definition header_re_match :: "string \<Rightarrow> (string \<times> string option) option" where
  "header_re_match line =
     (case line of
        [] \<Rightarrow> None
      | c # s \<Rightarrow>
          if c \<noteq> CHR ''#'' then None
          else
            (let name = takeWhile is_ident_char s;
                 meta = rstrip (dropWhile is_ident_char s)
             in if name = [] then None
                else if meta = [] then Some (name, None)
                else if 2 \<le> length meta \<and> hd meta = CHR ''{'' \<and> last meta = CHR ''}'' \<and>
                        nl \<notin> set meta
                then Some (name, Some meta)
                else None))"

text \<open>Lines 146 to 156: the dtype map handed to \<open>astype\<close>.\<close>

fun build_dtype_map :: "(string \<times> string) list \<Rightarrow> (string \<times> string) list" where
  "build_dtype_map [] = []"
| "build_dtype_map ((col, t) # dts) =
     (if t = ''int'' then (col, ''Int64'') # build_dtype_map dts
      else if t = ''float'' then (col, ''float'') # build_dtype_map dts
      else build_dtype_map dts)"

definition apply_dtypes :: "caster \<Rightarrow> metadata \<Rightarrow> dataframe \<Rightarrow> error + dataframe" where
  "apply_dtypes astype md df =
     (case map_of md ''dtypes'' of
        Some (DTypeMap dts) \<Rightarrow>
          (let dtype_map = build_dtype_map dts
           in if dtype_map \<noteq> [] then astype df dtype_map else Inr df)
      | _ \<Rightarrow> Inr df)"

definition is_hash_line :: "string \<Rightarrow> bool" where
  "is_hash_line ln \<longleftrightarrow> startswith (strip ln) ''#''"

text \<open>
  The \<open>while i < len(lines)\<close> loop of step 2, on the lines from \<open>i\<close> on.  It returns the
  two dicts \<open>tables\<close> and \<open>metadata\<close>.
\<close>

function scan_blocks ::
  "csv_reader \<Rightarrow> caster \<Rightarrow> string list \<Rightarrow> tables \<Rightarrow> (string \<times> metadata) list \<Rightarrow>
   error + (tables \<times> (string \<times> metadata) list)" where
  "scan_blocks read_csv astype [] tables metadata = Inr (tables, metadata)"
| "scan_blocks read_csv astype (l # ls) tables metadata =
     (if is_blank l then scan_blocks read_csv astype ls tables metadata
      else case header_re_match (strip l) of
        None \<Rightarrow> scan_blocks read_csv astype ls tables metadata
      | Some (block_name, meta_str) \<Rightarrow>
          (let md = (case meta_str of None \<Rightarrow> [] | Some m \<Rightarrow> parse_metadata (slice_inner m));
               metadata' = dict_set metadata block_name md
           in case dropWhile is_blank ls of
                [] \<Rightarrow> Inr (tables, metadata')
              | c # body \<Rightarrow>
                  (let col_line = rstrip_nl c;
                       data_buf = map rstrip_nl
                         (filter (\<lambda>ln. \<not> is_blank ln) (takeWhile (\<lambda>ln. \<not> is_hash_line ln) body));
                       csv_text = join [nl] (col_line # data_buf)
                   in case read_csv csv_text of
                        Inl e \<Rightarrow> Inl e
                      | Inr df \<Rightarrow>
                          (case apply_dtypes astype md df of
                             Inl e \<Rightarrow> Inl e
                           | Inr df' \<Rightarrow>
                               scan_blocks read_csv astype
                                 (dropWhile (\<lambda>ln. \<not> is_hash_line ln) body)
                                 (dict_set tables block_name df') metadata'))))"
  by pat_completeness auto
termination
proof (relation "measure (\<lambda>(r, a, ls, t, m). length ls)", goal_cases)
  case 1
  then show ?case by simp
next
  case 2
  then show ?case by simp
next
  case 3
  then show ?case by simp
next
  case (4 read_csv astype l ls tables metadata hm block_name meta_str md metadata' c body
      col_line data_buf csv_text df df')
  have "length (dropWhile is_blank ls) \<le> length ls"
    by (rule length_dropWhile_le)
  with 4 have "length body < length ls"
    by simp
  moreover have "length (dropWhile (\<lambda>ln. \<not> is_hash_line ln) body) \<le> length body"
    by (rule length_dropWhile_le)
  ultimately show ?case by simp
qed

section \<open>Reference resolver\<close>

text \<open>
  \<open>tables.get(ref, ref)\<close> on one cell.  A string that names a table becomes the handle
  to it; any other hashable value comes back unchanged; a cell that already holds a
  table is unhashable, and the lookup raises \<open>TypeError\<close>.
\<close>

fun resolve_cell :: "tables \<Rightarrow> cell \<Rightarrow> error + cell" where
  "resolve_cell tables (CStr s) = Inr (if s \<in> set (map fst tables) then CRef s else CStr s)"
| "resolve_cell tables (CRef n) = Inl TypeError"
| "resolve_cell tables c = Inr c"

fun map_result :: "('a \<Rightarrow> error + 'b) \<Rightarrow> 'a list \<Rightarrow> error + 'b list" where
  "map_result f [] = Inr []"
| "map_result f (x # xs) =
     (case f x of
        Inl e \<Rightarrow> Inl e
      | Inr y \<Rightarrow> (case map_result f xs of Inl e \<Rightarrow> Inl e | Inr ys \<Rightarrow> Inr (y # ys)))"

text \<open>
  The column that \<open>Series.apply\<close> returns.  A column that holds a string or a table is an
  object column.  The values of a nullable integer column reach the lambda as \<open>to_numpy\<close>
  gives them: integers when the column has no null, and the column comes back as plain
  integers; floats when it has one, the null a \<open>NaN\<close>, and the column comes back as
  floats (pandas 2.2 and later).
\<close>

definition holds_object :: "cell list \<Rightarrow> bool" where
  "holds_object cells =
     list_ex (\<lambda>c. case c of CStr _ \<Rightarrow> True | CRef _ \<Rightarrow> True | _ \<Rightarrow> False) cells"

definition applied_dtype :: "dtype \<Rightarrow> cell list \<Rightarrow> dtype" where
  "applied_dtype d cells =
     (if holds_object cells then DObject
      else if d = DNullableInt64 then (if CNull \<in> set cells then DFloat64 else DInt64)
      else d)"

definition applied_cells :: "dtype \<Rightarrow> cell list \<Rightarrow> cell list" where
  "applied_cells d cells =
     (if \<not> holds_object cells \<and> d = DNullableInt64 \<and> CNull \<in> set cells
      then map (\<lambda>c. case c of CInt i \<Rightarrow> CFloat i 0 | _ \<Rightarrow> c) cells
      else cells)"

fun replace_column :: "column list \<Rightarrow> string \<Rightarrow> cell list \<Rightarrow> column list" where
  "replace_column [] name cells = []"
| "replace_column (c # cs) name cells =
     (if col_name c = name
      then c\<lparr>col_dtype := applied_dtype (col_dtype c) cells,
             col_cells := applied_cells (col_dtype c) cells\<rparr> # cs
      else c # replace_column cs name cells)"

definition get_column :: "dataframe \<Rightarrow> string \<Rightarrow> column option" where
  "get_column df name = find (\<lambda>c. col_name c = name) (df_columns df)"

text \<open>
  The loop \<open>for col in md['refs']\<close> on one table.  With a column name that occurs twice,
  \<open>df[col]\<close> is a frame, \<open>apply\<close> hands whole columns to the lambda, and the lookup of
  an unhashable column raises \<open>TypeError\<close>.
\<close>

fun resolve_columns :: "tables \<Rightarrow> dataframe \<Rightarrow> string list \<Rightarrow> error + dataframe" where
  "resolve_columns tables df [] = Inr df"
| "resolve_columns tables df (col # cols) =
     (case get_column df col of
        None \<Rightarrow> resolve_columns tables df cols
      | Some c \<Rightarrow>
          if 1 < count_list (column_names df) col then Inl TypeError
          else (case map_result (resolve_cell tables) (col_cells c) of
                  Inl e \<Rightarrow> Inl e
                | Inr cells \<Rightarrow>
                    resolve_columns tables
                      (df\<lparr>df_columns := replace_column (df_columns df) col cells\<rparr>) cols))"

text \<open>Step 3: \<open>for tbl, md in metadata.items()\<close>; \<open>tables[tbl]\<close> raises on a missing key.\<close>

fun resolve_refs :: "tables \<Rightarrow> (string \<times> metadata) list \<Rightarrow> error + tables" where
  "resolve_refs tables [] = Inr tables"
| "resolve_refs tables ((tbl, md) # rest) =
     (case map_of md ''refs'' of
        None \<Rightarrow> resolve_refs tables rest
      | Some v \<Rightarrow>
          (case map_of tables tbl of
             None \<Rightarrow> Inl (KeyError tbl)
           | Some df \<Rightarrow>
               (case resolve_columns tables df (iterate v) of
                  Inl e \<Rightarrow> Inl e
                | Inr df' \<Rightarrow> resolve_refs (dict_set tables tbl df') rest)))"

section \<open>The parser\<close>

definition parse_lines :: "csv_reader \<Rightarrow> caster \<Rightarrow> string list \<Rightarrow> error + tables" where
  "parse_lines read_csv astype lines =
     (case parse_manifest lines of
        Inl e \<Rightarrow> Inl e
      | Inr (manifest_map, rest) \<Rightarrow>
          (case scan_blocks read_csv astype rest [] [] of
             Inl e \<Rightarrow> Inl e
           | Inr (tables, metadata) \<Rightarrow> resolve_refs tables metadata))"

definition parse_jcsv :: "csv_reader \<Rightarrow> caster \<Rightarrow> string \<Rightarrow> error + tables" where
  "parse_jcsv read_csv astype text = parse_lines read_csv astype (readlines text)"

section \<open>The writer (\<open>example_jcsv_writer.py\<close>)\<close>

text \<open>\<open>str(n)\<close> for a natural number.\<close>

fun str_nat :: "nat \<Rightarrow> string" where
  "str_nat n =
     (if n < 10 then [''0123456789'' ! n]
      else str_nat (n div 10) @ [''0123456789'' ! (n mod 10)])"

declare str_nat.simps [simp del]

definition str_int :: "int \<Rightarrow> string" where
  "str_int i = (if i < 0 then ''-'' @ str_nat (nat (- i)) else str_nat (nat i))"

text \<open>\<open>sub in s\<close> on strings.\<close>

definition contains :: "string \<Rightarrow> string \<Rightarrow> bool" where
  "contains sub s \<longleftrightarrow> list_ex (\<lambda>i. take (length sub) (drop i s) = sub) [0..<Suc (length s)]"

definition dtype_str :: "dtype \<Rightarrow> string" where
  "dtype_str d =
     (case d of
        DInt64 \<Rightarrow> ''int64''
      | DNullableInt64 \<Rightarrow> ''Int64''
      | DFloat64 \<Rightarrow> ''float64''
      | DObject \<Rightarrow> ''object''
      | DBool \<Rightarrow> ''bool'')"

definition dtype_tag :: "dtype \<Rightarrow> string" where
  "dtype_tag d =
     (let dt = dtype_str d
      in if contains ''int'' dt then ''int''
         else if contains ''float'' dt then ''float''
         else ''str'')"

definition dt_specs :: "dataframe \<Rightarrow> string list" where
  "dt_specs df = map (\<lambda>c. col_name c @ '':'' @ dtype_tag (col_dtype c)) (df_columns df)"

text \<open>\<open>comment.replace('"', '\\"')\<close>\<close>

definition escape_quotes :: "string \<Rightarrow> string" where
  "escape_quotes s = concat (map (\<lambda>c. if c = dquote then [CHR 0x5C, dquote] else [c]) s)"

definition block_meta :: "(string \<rightharpoonup> string) \<Rightarrow> string \<Rightarrow> dataframe \<Rightarrow> string" where
  "block_meta descriptions name df =
     (let meta = ''dtypes=['' @ join '','' (dt_specs df) @ '']''
      in case descriptions name of
           None \<Rightarrow> meta
         | Some comment \<Rightarrow>
             if comment = [] then meta
             else meta @ '',comment='' @ [dquote] @ escape_quotes comment @ [dquote])"

text \<open>Step 1: \<open>#manifest\<close>, the header, one line per table and one empty line.\<close>

definition manifest_line_count :: "tables \<Rightarrow> nat" where
  "manifest_line_count tables = 1 + 1 + length tables + 1"

text \<open>Step 2: the loop that fills \<open>start_lines\<close>.\<close>

fun start_lines_loop :: "tables \<Rightarrow> nat \<Rightarrow> (string \<times> nat) list \<Rightarrow> (string \<times> nat) list" where
  "start_lines_loop [] cursor start_lines = start_lines"
| "start_lines_loop ((name, df) # ts) cursor start_lines =
     start_lines_loop ts (cursor + (2 + df_len df + 1)) (dict_set start_lines name cursor)"

definition compute_start_lines :: "tables \<Rightarrow> (string \<times> nat) list" where
  "compute_start_lines tables = start_lines_loop tables (manifest_line_count tables + 1) []"

text \<open>Step 3a: one manifest row; \<open>start_lines[name]\<close> raises on a missing key.\<close>

definition manifest_row ::
  "(string \<rightharpoonup> string) \<Rightarrow> (string \<times> nat) list \<Rightarrow> string \<Rightarrow> error + string" where
  "manifest_row descriptions start_lines name =
     (let desc = (case descriptions name of None \<Rightarrow> [] | Some d \<Rightarrow> d);
          desc' = (if CHR '','' \<in> set desc then [dquote] @ desc @ [dquote] else desc)
      in case map_of start_lines name of
           None \<Rightarrow> Inl (KeyError name)
         | Some n \<Rightarrow> Inr (name @ '','' @ str_nat n @ '','' @ desc' @ [nl]))"

text \<open>Step 3b: the blocks, each an empty line, the title line and the CSV portion.\<close>

fun write_blocks :: "csv_writer \<Rightarrow> (string \<rightharpoonup> string) \<Rightarrow> tables \<Rightarrow> error + string" where
  "write_blocks to_csv descriptions [] = Inr []"
| "write_blocks to_csv descriptions ((name, df) # ts) =
     (case to_csv df of
        Inl e \<Rightarrow> Inl e
      | Inr csv \<Rightarrow>
          (case write_blocks to_csv descriptions ts of
             Inl e \<Rightarrow> Inl e
           | Inr rest \<Rightarrow>
               Inr ([nl] @ ''#'' @ name @ ''{'' @ block_meta descriptions name df @ ''}'' @ [nl]
                    @ csv @ rest)))"

text \<open>The text that \<open>export_jcsv\<close> writes to the file.\<close>

definition export_jcsv :: "csv_writer \<Rightarrow> tables \<Rightarrow> (string \<rightharpoonup> string) \<Rightarrow> error + string" where
  "export_jcsv to_csv tables descriptions =
     (let start_lines = compute_start_lines tables
      in case map_result (manifest_row descriptions start_lines) (map fst tables) of
           Inl e \<Rightarrow> Inl e
         | Inr rows \<Rightarrow>
             (case write_blocks to_csv descriptions tables of
                Inl e \<Rightarrow> Inl e
              | Inr blocks \<Rightarrow>
                  Inr (''#manifest'' @ [nl] @ ''table,start_line,description'' @ [nl]
                       @ concat rows @ blocks)))"

text \<open>The lines of a text, without their terminators (a last unterminated line counts).\<close>

definition text_lines :: "string \<Rightarrow> string list" where
  "text_lines text = map rstrip_nl (keepends text)"

section \<open>A reference model of the three pandas calls\<close>

text \<open>
  The theorems about the parser and the writer hold for every CSV reader, caster and CSV
  writer.  The closed examples need concrete ones.  The functions of this section model
  \<open>pandas.read_csv\<close>, \<open>DataFrame.astype\<close> and \<open>DataFrame.to_csv(index=False)\<close> on a
  fragment where the library's behaviour is documented and simple; on any input outside
  the fragment they return \<open>Unmodelled\<close>, which is not a Python exception.

  Fragment of the reader: no quoting; a header of distinct names, each plain text or a
  name that starts with \<open>#\<close> (\<open>read_csv\<close> is called without \<open>comment=\<close>, so a \<open>#\<close> has no
  special meaning and a first line \<open># note\<close> names a column); each field is empty, an
  integer literal, a decimal literal with a fractional part, or plain text that starts with
  a letter and is none of the words pandas reads as a missing value, a boolean or a
  special float.  A negative zero is outside the fragment.
\<close>

definition is_alpha :: "char \<Rightarrow> bool" where
  "is_alpha c \<longleftrightarrow> c \<in> set ''ABCDEFGHIJKLMNOPQRSTUVWXYZabcdefghijklmnopqrstuvwxyz''"

definition to_lower :: "char \<Rightarrow> char" where
  "to_lower c =
     (case map_of (zip ''ABCDEFGHIJKLMNOPQRSTUVWXYZ'' ''abcdefghijklmnopqrstuvwxyz'') c of
        None \<Rightarrow> c
      | Some l \<Rightarrow> l)"

definition reserved_words :: "string list" where
  "reserved_words = [''inf'', ''infinity'', ''nan'', ''true'', ''false'', ''na'', ''null'', ''none'']"

definition plain_text :: "string \<Rightarrow> bool" where
  "plain_text f \<longleftrightarrow>
     f \<noteq> [] \<and> is_alpha (hd f) \<and>
     list_all (\<lambda>c. is_ident_char c \<or> c \<in> set '' .@-'') f \<and>
     map to_lower f \<notin> set reserved_words"

definition column_label :: "string \<Rightarrow> bool" where
  "column_label f \<longleftrightarrow>
     plain_text f \<or>
     (f \<noteq> [] \<and> hd f = CHR ''#'' \<and>
      list_all (\<lambda>c. is_ident_char c \<or> c \<in> set '' .@-#{}[]=:'') f)"

datatype field = FEmpty | FInt int | FDec int nat | FText | FBad

definition all_digits :: "string \<Rightarrow> bool" where
  "all_digits s \<longleftrightarrow> s \<noteq> [] \<and> list_all is_digit s"

text \<open>Trailing zeros of the fraction do not change the value.\<close>

fun normalise :: "int \<Rightarrow> nat \<Rightarrow> int \<times> nat" where
  "normalise m 0 = (m, 0)"
| "normalise m (Suc e) = (if m mod 10 = 0 then normalise (m div 10) e else (m, Suc e))"

definition classify :: "string \<Rightarrow> field" where
  "classify f =
     (let neg = startswith f ''-'' \<and> f \<noteq> [];
          b = (if neg then tl f else f);
          ip = takeWhile (\<lambda>c. c \<noteq> CHR ''.'') b;
          fp = drop (Suc (length ip)) b;
          sgn = (if neg then - 1 else 1)
      in if f = [] then FEmpty
         else if neg \<and> list_all (\<lambda>c. c = CHR ''0'' \<or> c = CHR ''.'') b then FBad
         else if all_digits b \<and> length b \<le> 15 then FInt (sgn * int (digits_val b))
         else if all_digits ip \<and> all_digits fp \<and> length ip + length fp \<le> 15 \<and>
                 b = ip @ ''.'' @ fp
         then FDec (sgn * int (digits_val (ip @ fp))) (length fp)
         else if plain_text f then FText
         else FBad)"

definition is_numeric :: "field \<Rightarrow> bool" where
  "is_numeric x = (case x of FInt _ \<Rightarrow> True | FDec _ _ \<Rightarrow> True | FEmpty \<Rightarrow> True | _ \<Rightarrow> False)"

definition is_FInt :: "field \<Rightarrow> bool" where
  "is_FInt x = (case x of FInt _ \<Rightarrow> True | _ \<Rightarrow> False)"

text \<open>
  Type inference on one column: integers without a gap are \<open>int64\<close>; numbers with gaps
  or fractions are \<open>float64\<close> with the gaps null; anything else is an object column that
  keeps each field's text, gaps null.  A table without rows has object columns.
\<close>

definition infer_column :: "string \<Rightarrow> string list \<Rightarrow> column" where
  "infer_column name fs =
     (let cs = map classify fs
      in if fs = [] then \<lparr>col_name = name, col_dtype = DObject, col_cells = []\<rparr>
         else if list_all is_FInt cs
         then \<lparr>col_name = name, col_dtype = DInt64,
               col_cells = map (\<lambda>x. case x of FInt i \<Rightarrow> CInt i | _ \<Rightarrow> CNull) cs\<rparr>
         else if list_all is_numeric cs
         then \<lparr>col_name = name, col_dtype = DFloat64,
               col_cells = map (\<lambda>x. case x of
                                        FInt i \<Rightarrow> CFloat i 0
                                      | FDec m e \<Rightarrow> (case normalise m e of (m', e') \<Rightarrow> CFloat m' e')
                                      | _ \<Rightarrow> CNull) cs\<rparr>
         else \<lparr>col_name = name, col_dtype = DObject,
               col_cells = map (\<lambda>f. if f = [] then CNull else CStr f) fs\<rparr>)"

definition pad :: "nat \<Rightarrow> string list \<Rightarrow> string list" where
  "pad n fs = fs @ replicate (n - length fs) []"

text \<open>
  A row with fewer fields than the header is filled with gaps.  A row after the first
  with more fields than the header raises \<open>ParserError\<close>; so many fields in the first row
  would make pandas read an index column, which is outside the fragment.
\<close>

definition pd_read_csv :: csv_reader where
  "pd_read_csv text =
     (case map (split_on (CHR '','')) (split_on nl text) of
        [] \<Rightarrow> Inl Unmodelled
      | header # rows \<Rightarrow>
          (let n = length header
           in if dquote \<in> set text \<or> CHR 0x0D \<in> set text \<or> \<not> list_all column_label header \<or>
                 \<not> distinct header \<or> list_ex (\<lambda>r. r = [[]]) rows \<or>
                 list_ex (\<lambda>f. classify f = FBad) (concat rows) \<or>
                 (rows \<noteq> [] \<and> n < length (hd rows))
              then Inl Unmodelled
              else if list_ex (\<lambda>r. n < length r) rows then Inl (PandasError ''ParserError'')
              else Inr \<lparr>df_len = length rows,
                        df_columns = map (\<lambda>j. infer_column (header ! j)
                                                  (map (\<lambda>r. pad n r ! j) rows)) [0..<n]\<rparr>))"

text \<open>
  \<open>astype\<close> with a dict: a key that is no column raises \<open>KeyError\<close> before any cast.
  \<open>Int64\<close> accepts integers and floats without a fraction, a null staying null, and raises
  \<open>TypeError\<close> on a fraction; \<open>float\<close> accepts integers and floats.
\<close>

fun cast_cell_Int64 :: "cell \<Rightarrow> error + cell" where
  "cast_cell_Int64 (CInt i) = Inr (CInt i)"
| "cast_cell_Int64 (CFloat m 0) = Inr (CInt m)"
| "cast_cell_Int64 (CFloat m (Suc e)) = Inl TypeError"
| "cast_cell_Int64 CNull = Inr CNull"
| "cast_cell_Int64 c = Inl Unmodelled"

fun cast_cell_float :: "cell \<Rightarrow> error + cell" where
  "cast_cell_float (CInt i) = Inr (CFloat i 0)"
| "cast_cell_float (CFloat m e) = Inr (CFloat m e)"
| "cast_cell_float CNull = Inr CNull"
| "cast_cell_float c = Inl Unmodelled"

definition cast_column :: "string \<Rightarrow> column \<Rightarrow> error + column" where
  "cast_column target c =
     (if target = ''Int64'' \<and> col_dtype c \<in> set [DInt64, DNullableInt64, DFloat64]
      then (case map_result cast_cell_Int64 (col_cells c) of
              Inl e \<Rightarrow> Inl e
            | Inr cells \<Rightarrow> Inr (c\<lparr>col_dtype := DNullableInt64, col_cells := cells\<rparr>))
      else if target = ''float'' \<and> col_dtype c \<in> set [DInt64, DFloat64]
      then (case map_result cast_cell_float (col_cells c) of
              Inl e \<Rightarrow> Inl e
            | Inr cells \<Rightarrow> Inr (c\<lparr>col_dtype := DFloat64, col_cells := cells\<rparr>))
      else Inl Unmodelled)"

definition pd_astype :: caster where
  "pd_astype df dtype_map =
     (case find (\<lambda>(k, t). k \<notin> set (column_names df)) dtype_map of
        Some (k, t) \<Rightarrow> Inl (KeyError k)
      | None \<Rightarrow>
          (case map_result (\<lambda>c. case map_of dtype_map (col_name c) of
                                    None \<Rightarrow> Inr c
                                  | Some t \<Rightarrow> cast_column t c) (df_columns df) of
             Inl e \<Rightarrow> Inl e
           | Inr cols \<Rightarrow> Inr (df\<lparr>df_columns := cols\<rparr>)))"

text \<open>
  \<open>to_csv(index=False)\<close>: the header line and one line per row, each ended by a newline.
  A field that holds a comma, a double quote or a line break is enclosed in double
  quotes, its double quotes doubled; a row that is one empty field is written \<open>""\<close>.
  Whether a carriage return forces quotes depends on the Python version, so a name or a
  string that holds one is outside the fragment.  Floats are written as Python prints
  them, for the magnitudes that need no exponent.
\<close>

definition pad_left :: "nat \<Rightarrow> string \<Rightarrow> string" where
  "pad_left n s = replicate (n - length s) (CHR ''0'') @ s"

definition float_text :: "int \<Rightarrow> nat \<Rightarrow> string" where
  "float_text m e =
     (let ds = pad_left (Suc e) (str_nat (nat \<bar>m\<bar>));
          k = length ds - e
      in (if m < 0 then ''-'' else []) @ take k ds @ ''.'' @ (if e = 0 then ''0'' else drop k ds))"

definition float_modelled :: "int \<Rightarrow> nat \<Rightarrow> bool" where
  "float_modelled m e \<longleftrightarrow> e \<le> 4 \<and> \<bar>m\<bar> < 10 ^ 15 \<and> (e = 0 \<or> m mod 10 \<noteq> 0)"

fun cell_text :: "cell \<Rightarrow> error + string" where
  "cell_text (CStr s) = (if CHR 0x0D \<in> set s then Inl Unmodelled else Inr s)"
| "cell_text (CInt i) = Inr (str_int i)"
| "cell_text (CFloat m e) = (if float_modelled m e then Inr (float_text m e) else Inl Unmodelled)"
| "cell_text CNull = Inr []"
| "cell_text (CRef n) = Inl Unmodelled"

definition needs_quote :: "string \<Rightarrow> bool" where
  "needs_quote f \<longleftrightarrow> list_ex (\<lambda>c. c \<in> set [CHR '','', dquote, nl]) f"

definition csv_field :: "string \<Rightarrow> string" where
  "csv_field f =
     (if needs_quote f
      then [dquote] @ concat (map (\<lambda>c. if c = dquote then [dquote, dquote] else [c]) f) @ [dquote]
      else f)"

definition csv_row :: "string list \<Rightarrow> string" where
  "csv_row fs = (if fs = [[]] then [dquote, dquote] else join '','' (map csv_field fs)) @ [nl]"

definition well_shaped :: "dataframe \<Rightarrow> bool" where
  "well_shaped df \<longleftrightarrow>
     df_columns df \<noteq> [] \<and> list_all (\<lambda>c. length (col_cells c) = df_len df) (df_columns df)"

definition pd_to_csv :: csv_writer where
  "pd_to_csv df =
     (if \<not> well_shaped df \<or> list_ex (\<lambda>n. CHR 0x0D \<in> set n) (column_names df)
      then Inl Unmodelled
      else case map_result (\<lambda>i. map_result (\<lambda>c. cell_text (col_cells c ! i)) (df_columns df))
                  [0..<df_len df] of
             Inl e \<Rightarrow> Inl e
           | Inr rows \<Rightarrow> Inr (concat (map csv_row (column_names df # rows))))"

section \<open>Notions used in the statements\<close>

text \<open>
  The number of line breaks of a text; the title line of a block and the text of a
  manifest row as the writer formats them; the cursor of the offset pass in closed form.
  A table is \<open>single_line_table\<close> when nothing the writer emits for it contains a stray
  line break: not its name, its metadata or its description, and its CSV portion has one
  line for the header and one for each row.
\<close>

definition count_nl :: "string \<Rightarrow> nat" where
  "count_nl s = length (filter (\<lambda>c. c = nl) s)"

definition cursor_at :: "tables \<Rightarrow> nat \<Rightarrow> nat" where
  "cursor_at ts i = sum_list (map (\<lambda>(name, df). 2 + df_len df + 1) (take i ts))"

definition header_line :: "(string \<rightharpoonup> string) \<Rightarrow> string \<times> dataframe \<Rightarrow> string" where
  "header_line descriptions t =
     (case t of (name, df) \<Rightarrow> ''#'' @ name @ ''{'' @ block_meta descriptions name df @ ''}'')"

definition single_line_table :: "csv_writer \<Rightarrow> (string \<rightharpoonup> string) \<Rightarrow> string \<times> dataframe \<Rightarrow> bool" where
  "single_line_table to_csv descriptions t =
     (case t of (name, df) \<Rightarrow>
        nl \<notin> set name \<and> nl \<notin> set (block_meta descriptions name df) \<and>
        (case descriptions name of None \<Rightarrow> True | Some d \<Rightarrow> nl \<notin> set d) \<and>
        (case to_csv df of Inl e \<Rightarrow> False | Inr csv \<Rightarrow> count_nl csv = 1 + df_len df))"

definition row_line :: "(string \<rightharpoonup> string) \<Rightarrow> nat \<Rightarrow> string \<Rightarrow> string" where
  "row_line descriptions n name =
     (let desc = (case descriptions name of None \<Rightarrow> [] | Some d \<Rightarrow> d);
          desc' = (if CHR '','' \<in> set desc then [dquote] @ desc @ [dquote] else desc)
      in name @ '','' @ str_nat n @ '','' @ desc')"

definition manifest_head :: string where
  "manifest_head = ''#manifest'' @ [nl] @ ''table,start_line,description'' @ [nl]"

definition start_line_at :: "tables \<Rightarrow> nat \<Rightarrow> nat" where
  "start_line_at ts i = manifest_line_count ts + 1 + cursor_at ts i"

definition rows_text :: "(string \<rightharpoonup> string) \<Rightarrow> tables \<Rightarrow> string" where
  "rows_text descriptions ts =
     concat (map (\<lambda>i. row_line descriptions (start_line_at ts i) (fst (ts ! i)) @ [nl]) [0..<length ts])"

text \<open>
  The scanner's \<open>let\<close>-bound values as functions of a block's lines: the metadata of a
  title line, the CSV text handed to the reader, and the table built from it.  The rows
  of the manifest section are the lines up to the first blank or \<open>#\<close> line; a row
  \<open>lacks_required\<close> when the dict zipped from the header and the row has no \<open>table\<close> or
  no \<open>start_line\<close>.
\<close>

definition header_md :: "string option \<Rightarrow> metadata" where
  "header_md meta_str = (case meta_str of None \<Rightarrow> [] | Some m \<Rightarrow> parse_metadata (slice_inner m))"

definition block_csv :: "string \<Rightarrow> string list \<Rightarrow> string" where
  "block_csv c body =
     join [nl] (rstrip_nl c # map rstrip_nl (filter (\<lambda>ln. \<not> is_blank ln) body))"

definition build_table :: "csv_reader \<Rightarrow> caster \<Rightarrow> metadata \<Rightarrow> string \<Rightarrow> error + dataframe" where
  "build_table read_csv astype md csv =
     (case read_csv csv of Inl e \<Rightarrow> Inl e | Inr df \<Rightarrow> apply_dtypes astype md df)"

text \<open>
  Where the loop of step 2 stands after it has moved through a run of lines (lines 104 to
  140 of the parser).  At the top of the loop (\<open>Top\<close>) a blank line and a line that does
  not match the header pattern are passed over and a matching line is a title line.
  Behind a title line (\<open>AwaitColumns\<close>) blank lines are passed over and the first
  non-blank line is taken as the column line, whatever it holds: line 129 does not look
  for a \<open>#\<close>.  Behind the column line (\<open>InBody\<close>) every line belongs to the body until a
  line whose stripped content starts with \<open>#\<close>; that line ends the body and is looked at
  again from the top of the loop.
\<close>

datatype scan_state = Top | AwaitColumns | InBody

definition top_step :: "string \<Rightarrow> scan_state" where
  "top_step l =
     (if is_blank l then Top
      else case header_re_match (strip l) of None \<Rightarrow> Top | Some hm \<Rightarrow> AwaitColumns)"

fun scan_step :: "scan_state \<Rightarrow> string \<Rightarrow> scan_state" where
  "scan_step Top l = top_step l"
| "scan_step AwaitColumns l = (if is_blank l then AwaitColumns else InBody)"
| "scan_step InBody l = (if is_hash_line l then top_step l else InBody)"

definition scan_state_after :: "string list \<Rightarrow> scan_state" where
  "scan_state_after pre = foldl scan_step Top pre"

definition unlines :: "string list \<Rightarrow> string" where
  "unlines ls = concat (map (\<lambda>l. l @ [nl]) ls)"

definition manifest_section :: "string list \<Rightarrow> string list" where
  "manifest_section rows = takeWhile (\<lambda>l. \<not> (is_blank l \<or> is_hash_line l)) rows"

definition row_dict :: "string list \<Rightarrow> string \<Rightarrow> (string \<times> string) list" where
  "row_dict cols l = dict_of (zip cols (map strip (split_on (CHR '','') (strip l))))"

definition lacks_required :: "string list \<Rightarrow> string \<Rightarrow> bool" where
  "lacks_required cols l \<longleftrightarrow>
     map_of (row_dict cols l) ''table'' = None \<or> map_of (row_dict cols l) ''start_line'' = None"

definition manifest_failure :: "error \<Rightarrow> bool" where
  "manifest_failure e \<longleftrightarrow>
     e = KeyError ''start_line'' \<or> e = KeyError ''table'' \<or> (case e of ValueError s \<Rightarrow> True | _ \<Rightarrow> False)"

text \<open>What \<open>tables.get(s, s)\<close> returns for the string \<open>s\<close>.\<close>

definition resolved :: "tables \<Rightarrow> string \<Rightarrow> cell" where
  "resolved tables s = (if s \<in> fst ` set tables then CRef s else CStr s)"

text \<open>
  Notions of the round trip.  An identifier is what group 1 of the header pattern matches;
  a clean line holds no line break and no carriage return; \<open>terminated\<close> is a line as
  \<open>readlines\<close> returns it.  \<open>csv_lines_of\<close> are the lines of a table's CSV text,
  \<open>block_seq\<close> the lines the writer emits for the blocks, and \<open>reread\<close> what the reader
  and the caster make of a table's own CSV text under the metadata the writer records.
\<close>

definition is_identifier :: "string \<Rightarrow> bool" where
  "is_identifier s \<longleftrightarrow> s \<noteq> [] \<and> list_all is_ident_char s"

definition clean_line :: "string \<Rightarrow> bool" where
  "clean_line l \<longleftrightarrow> nl \<notin> set l \<and> CHR 0x0D \<notin> set l"

definition csv_lines_of :: "csv_writer \<Rightarrow> dataframe \<Rightarrow> string list" where
  "csv_lines_of to_csv df = (case to_csv df of Inl e \<Rightarrow> [] | Inr csv \<Rightarrow> text_lines csv)"

definition framed :: "csv_writer \<Rightarrow> string \<times> dataframe \<Rightarrow> bool" where
  "framed to_csv t =
     (case t of (name, df) \<Rightarrow>
        is_identifier name \<and> clean_line (block_meta Map.empty name df) \<and>
        map_of (parse_metadata (block_meta Map.empty name df)) ''refs'' = None \<and>
        (case to_csv df of
           Inl e \<Rightarrow> False
         | Inr csv \<Rightarrow>
             csv = unlines (text_lines csv) \<and> text_lines csv \<noteq> [] \<and>
             list_all (\<lambda>l. clean_line l \<and> \<not> is_blank l) (text_lines csv) \<and>
             list_all (\<lambda>l. \<not> is_hash_line l) (tl (text_lines csv))))"

definition reread :: "csv_reader \<Rightarrow> caster \<Rightarrow> csv_writer \<Rightarrow> string \<times> dataframe \<Rightarrow> error + dataframe" where
  "reread read_csv astype to_csv t =
     (case t of (name, df) \<Rightarrow>
        build_table read_csv astype (parse_metadata (block_meta Map.empty name df))
          (join [nl] (csv_lines_of to_csv df)))"

fun block_seq :: "csv_writer \<Rightarrow> tables \<Rightarrow> string list" where
  "block_seq w [] = []"
| "block_seq w ((name, df) # ts) =
     [nl] # (header_line Map.empty (name, df) @ [nl]) #
     map (\<lambda>l. l @ [nl]) (csv_lines_of w df) @ block_seq w ts"

definition terminated :: "string \<Rightarrow> bool" where
  "terminated x \<longleftrightarrow> x \<noteq> [] \<and> last x = nl \<and> nl \<notin> set (butlast x) \<and> CHR 0x0D \<notin> set x"

section \<open>Example tables\<close>

definition ex_users :: dataframe where
  "ex_users = \<lparr>df_len = 2, df_columns =
     [\<lparr>col_name = ''id'', col_dtype = DInt64, col_cells = [CInt 1, CInt 2]\<rparr>,
      \<lparr>col_name = ''name'', col_dtype = DObject, col_cells = [CStr ''Alice'', CStr ''Bob'']\<rparr>]\<rparr>"

definition ex_orders :: dataframe where
  "ex_orders = \<lparr>df_len = 2, df_columns =
     [\<lparr>col_name = ''order_id'', col_dtype = DInt64, col_cells = [CInt 100, CInt 200]\<rparr>,
      \<lparr>col_name = ''user_id'', col_dtype = DInt64, col_cells = [CInt 1, CInt 2]\<rparr>,
      \<lparr>col_name = ''total'', col_dtype = DFloat64, col_cells = [CFloat 999 2, CFloat 145 1]\<rparr>]\<rparr>"

text \<open>A table with one text cell that holds a line break.\<close>

definition ex_notes :: dataframe where
  "ex_notes = \<lparr>df_len = 1, df_columns =
     [\<lparr>col_name = ''note'', col_dtype = DObject, col_cells = [CStr (''a'' @ [nl] @ ''b'')]\<rparr>]\<rparr>"

definition ex_tables :: tables where
  "ex_tables = [(''users'', ex_users), (''orders'', ex_orders)]"

text \<open>An orders table whose column \<open>user\<close> names tables, and the scanned metadata.\<close>

definition ex_orders_refs :: dataframe where
  "ex_orders_refs = \<lparr>df_len = 2, df_columns =
     [\<lparr>col_name = ''oid'', col_dtype = DInt64, col_cells = [CInt 100, CInt 200]\<rparr>,
      \<lparr>col_name = ''user'', col_dtype = DObject, col_cells = [CStr ''users'', CStr ''nobody'']\<rparr>]\<rparr>"

definition ex_ref_tables :: tables where
  "ex_ref_tables = [(''users'', ex_users), (''orders'', ex_orders_refs)]"

definition ex_metadata :: "(string \<times> metadata) list" where
  "ex_metadata = [(''users'', []), (''orders'', [(''refs'', Items [''user''])])]"

definition ex_prices :: dataframe where
  "ex_prices = \<lparr>df_len = 2, df_columns =
     [\<lparr>col_name = ''item'', col_dtype = DObject, col_cells = [CStr ''pen'', CStr ''ink'']\<rparr>,
      \<lparr>col_name = ''price'', col_dtype = DFloat64, col_cells = [CFloat 999 2, CFloat 145 1]\<rparr>]\<rparr>"

text \<open>A table with one text column of postal codes.\<close>

definition ex_zip :: dataframe where
  "ex_zip = \<lparr>df_len = 2, df_columns =
     [\<lparr>col_name = ''zip'', col_dtype = DObject, col_cells = [CStr ''01234'', CStr ''02139'']\<rparr>]\<rparr>"

definition ex_round_trip :: tables where
  "ex_round_trip = [(''prices'', ex_prices), (''users'', ex_users)]"

definition ex_users_reread :: dataframe where
  "ex_users_reread = \<lparr>df_len = 2, df_columns =
     [\<lparr>col_name = ''id'', col_dtype = DNullableInt64, col_cells = [CInt 1, CInt 2]\<rparr>,
      \<lparr>col_name = ''name'', col_dtype = DObject, col_cells = [CStr ''Alice'', CStr ''Bob'']\<rparr>]\<rparr>"

section \<open>Example documents\<close>

definition doc_bad_manifest :: string where
  "doc_bad_manifest = unlines [''#manifest'', ''name,start_line'', ''users,3'', '''',
     ''#users'', ''id,name'', ''1,Alice'']"

definition doc_ragged :: string where
  "doc_ragged = unlines [''#a'', ''x,y'', ''1,2'', ''3,4,5'', '''', ''#b'', ''z'', ''1'']"

definition doc_note :: string where
  "doc_note = unlines [''#a'', '''', ''x'', ''1'', ''# note'', ''lost,1'', ''2'', ''#b'', ''y'', ''5'']"

definition doc_hash_column :: string where
  "doc_hash_column = unlines [''#a'', ''# note'', ''x'', ''1'', ''#b'', ''y'', ''5'']"

definition doc_trailing :: string where
  "doc_trailing = unlines [''#a'', ''x'', ''foo'', ''# note'', ''#b{refs=[x]}'', '''']"

definition doc_trailing_column :: string where
  "doc_trailing_column = unlines [''#a'', ''#b{refs=[x]}'', '''']"

definition doc_trailing_dup :: string where
  "doc_trailing_dup = unlines [''#a'', ''x'', ''a'', '''', ''#a{refs=[x]}'', '''']"

definition doc_int_gap :: string where
  "doc_int_gap = unlines [''#t{dtypes=[id:int,name:str]}'', ''id,name'', ''1,Ann'', '',Bob'', ''3,Cy'']"

definition doc_float_tag :: string where
  "doc_float_tag = unlines [''#t{dtypes=[x:float,tag:label]}'', ''x,tag'', ''1,a'', ''2,b'']"

definition doc_str_tag :: string where
  "doc_str_tag = unlines [''#t{dtypes=[id:int,zip:str]}'', ''id,zip'', ''1,01234'', ''2,02139'']"

definition doc_zip :: string where
  "doc_zip = unlines [''#manifest'', ''table,start_line,description'', ''t,5,'', '''',
     ''#t{dtypes=[zip:str]}'', ''zip'', ''01234'', ''02139'']"
section \<open>Lines of a text\<close>

lemma count_nl_simps [simp]:
  "count_nl [] = 0"
  "count_nl (c # s) = (if c = nl then Suc (count_nl s) else count_nl s)"
  "count_nl (s @ t) = count_nl s + count_nl t"
  by (simp_all add: count_nl_def)

lemma count_nl_zero: "nl \<notin> set s \<Longrightarrow> count_nl s = 0"
  by (induction s) auto

lemma keepends_eq_Nil [simp]: "keepends s = [] \<longleftrightarrow> s = []"
  by (cases s) (auto split: list.splits)

lemma keepends_append:
  "pre = [] \<or> last pre = nl \<Longrightarrow> keepends (pre @ s) = keepends pre @ keepends s"
proof (induction pre)
  case Nil
  then show ?case by simp
next
  case (Cons c p)
  show ?case
  proof (cases "c = nl")
    case True
    from Cons.prems have "p = [] \<or> last p = nl" by (auto split: if_splits)
    with Cons.IH True show ?thesis by simp
  next
    case False
    with Cons.prems have p: "p \<noteq> []" "last p = nl" by (auto split: if_splits)
    with Cons.IH have "keepends (p @ s) = keepends p @ keepends s" by simp
    moreover from p obtain l ls where "keepends p = l # ls" by (cases "keepends p") auto
    ultimately show ?thesis using False by simp
  qed
qed

lemma length_keepends:
  "pre = [] \<or> last pre = nl \<Longrightarrow> length (keepends pre) = count_nl pre"
proof (induction pre)
  case Nil
  then show ?case by simp
next
  case (Cons c p)
  show ?case
  proof (cases "c = nl")
    case True
    from Cons.prems have "p = [] \<or> last p = nl" by (auto split: if_splits)
    with Cons.IH True show ?thesis by simp
  next
    case False
    with Cons.prems have p: "p \<noteq> []" "last p = nl" by (auto split: if_splits)
    with Cons.IH have "length (keepends p) = count_nl p" by simp
    moreover from p obtain l ls where "keepends p = l # ls" by (cases "keepends p") auto
    ultimately show ?thesis using False by simp
  qed
qed

lemma keepends_line:
  "nl \<notin> set h \<Longrightarrow> keepends (h @ nl # post) = (h @ [nl]) # keepends post"
  by (induction h) auto

lemma rstrip_nl_line: "nl \<notin> set h \<Longrightarrow> rstrip_nl (h @ [nl]) = h"
proof -
  assume a: "nl \<notin> set h"
  have "dropWhile (\<lambda>c. c = nl) (rev h) = rev h"
    using a by (cases "rev h") auto
  then show ?thesis by (simp add: rstrip_nl_def)
qed

lemma nth_line:
  assumes "pre = [] \<or> last pre = nl" and "nl \<notin> set h"
  shows "text_lines (pre @ h @ nl # post) ! count_nl pre = h"
proof -
  have "keepends (pre @ h @ nl # post) = keepends pre @ (h @ [nl]) # keepends post"
    using assms by (simp add: keepends_append keepends_line)
  then show ?thesis
    using assms by (simp add: text_lines_def nth_append length_keepends rstrip_nl_line)
qed

lemma map_of_dict_set:
  "map_of (dict_set d k v) k' = (if k' = k then Some v else map_of d k')"
  by (induction d) auto

lemma start_lines_loop_other:
  "k \<notin> fst ` set ts \<Longrightarrow> map_of (start_lines_loop ts c sl) k = map_of sl k"
  by (induction ts arbitrary: c sl) (auto simp: map_of_dict_set)

lemma start_lines_loop_present:
  "k \<in> fst ` set ts \<or> map_of sl k \<noteq> None \<Longrightarrow> map_of (start_lines_loop ts c sl) k \<noteq> None"
  by (induction ts arbitrary: c sl) (force simp: map_of_dict_set)+

lemma start_lines_loop_nth:
  "distinct (map fst ts) \<Longrightarrow> i < length ts \<Longrightarrow>
   map_of (start_lines_loop ts c sl) (fst (ts ! i)) = Some (c + cursor_at ts i)"
proof (induction ts arbitrary: c sl i)
  case Nil
  then show ?case by simp
next
  case (Cons t ts)
  obtain name df where t: "t = (name, df)" by (cases t)
  show ?case
  proof (cases i)
    case 0
    with Cons.prems t show ?thesis
      by (simp add: start_lines_loop_other map_of_dict_set cursor_at_def)
  next
    case (Suc j)
    with Cons.prems have "map_of (start_lines_loop ts (c + (2 + df_len df + 1)) (dict_set sl name c)) (fst (ts ! j))
        = Some (c + (2 + df_len df + 1) + cursor_at ts j)"
      by (intro Cons.IH) auto
    with Suc t show ?thesis by (simp add: cursor_at_def)
  qed
qed


section \<open>The writer: offsets of the manifest\<close>

lemma map_result_Inr:
  "(\<And>x. x \<in> set xs \<Longrightarrow> f x = Inr (g x)) \<Longrightarrow> map_result f xs = Inr (map g xs)"
  by (induction xs) auto

lemma str_nat_digits: "set (str_nat n) \<subseteq> set ''0123456789''"
proof (induction n rule: str_nat.induct)
  case (1 n)
  have d: "''0123456789'' ! k \<in> set ''0123456789''" if "k < 10" for k
    using that by (intro nth_mem) simp
  show ?case
  proof (cases "n < 10")
    case True
    then show ?thesis using d[of n] by (subst str_nat.simps) auto
  next
    case False
    have "n mod 10 < 10" by simp
    with False 1 d[of "n mod 10"] show ?thesis by (subst str_nat.simps) auto
  qed
qed

lemma nl_notin_str_nat: "nl \<notin> set (str_nat n)"
  using str_nat_digits[of n] by (auto simp: nl_def)

lemma manifest_row_eq:
  "map_of sl name = Some n \<Longrightarrow> manifest_row descriptions sl name = Inr (row_line descriptions n name @ [nl])"
  by (simp add: manifest_row_def row_line_def Let_def)

lemma nl_notin_row_line:
  "nl \<notin> set name \<Longrightarrow> (case descriptions name of None \<Rightarrow> True | Some d \<Rightarrow> nl \<notin> set d) \<Longrightarrow>
   nl \<notin> set (row_line descriptions n name)"
  by (auto simp: row_line_def Let_def nl_notin_str_nat split: option.splits) (simp_all add: nl_def dquote_def)

lemma concat_lines:
  "(\<And>r. r \<in> set rs \<Longrightarrow> nl \<notin> set r) \<Longrightarrow>
   count_nl (concat (map (\<lambda>r. r @ [nl]) rs)) = length rs \<and>
   (concat (map (\<lambda>r. r @ [nl]) rs) = [] \<or> last (concat (map (\<lambda>r. r @ [nl]) rs)) = nl)"
proof (induction rs rule: rev_induct)
  case Nil
  then show ?case by simp
next
  case (snoc r rs)
  then show ?case by (simp add: count_nl_zero)
qed

lemma write_blocks_structure:
  "list_all (single_line_table to_csv descriptions) ts \<Longrightarrow>
   \<exists>blocks. write_blocks to_csv descriptions ts = Inr blocks \<and>
     (\<forall>i<length ts. \<exists>pre post.
        blocks = pre @ [nl] @ header_line descriptions (ts ! i) @ nl # post \<and>
        count_nl pre = cursor_at ts i)"
proof (induction ts)
  case Nil
  then show ?case by simp
next
  case (Cons t ts)
  obtain name df where t: "t = (name, df)" by (cases t)
  from Cons.prems t obtain csv where csv: "to_csv df = Inr csv" "count_nl csv = 1 + df_len df"
    and nm: "nl \<notin> set name" "nl \<notin> set (block_meta descriptions name df)"
    by (auto simp: single_line_table_def split: sum.splits)
  from Cons obtain rest where rest: "write_blocks to_csv descriptions ts = Inr rest"
    and ih: "\<forall>i<length ts. \<exists>pre post.
        rest = pre @ [nl] @ header_line descriptions (ts ! i) @ nl # post \<and>
        count_nl pre = cursor_at ts i"
    by auto
  let ?hd = "header_line descriptions (name, df)"
  let ?blocks = "[nl] @ ?hd @ [nl] @ csv @ rest"
  have w: "write_blocks to_csv descriptions (t # ts) = Inr ?blocks"
    using t csv rest by (simp add: header_line_def)
  have hcount: "count_nl ?hd = 0"
    using nm by (simp add: header_line_def count_nl_zero nl_def)
  have "\<exists>pre post. ?blocks = pre @ [nl] @ header_line descriptions ((t # ts) ! i) @ nl # post \<and>
          count_nl pre = cursor_at (t # ts) i" if i: "i < length (t # ts)" for i
  proof (cases i)
    case 0
    have "?blocks = [] @ [nl] @ ?hd @ nl # (csv @ rest)" by simp
    moreover have "count_nl [] = cursor_at (t # ts) 0" by (simp add: cursor_at_def)
    ultimately show ?thesis using 0 t by (metis nth_Cons_0)
  next
    case (Suc j)
    with i ih obtain pre post where p: "rest = pre @ [nl] @ header_line descriptions (ts ! j) @ nl # post"
      "count_nl pre = cursor_at ts j" by auto
    have "?blocks = ([nl] @ ?hd @ [nl] @ csv @ pre) @ [nl] @ header_line descriptions (ts ! j) @ nl # post"
      using p by simp
    moreover have "count_nl ([nl] @ ?hd @ [nl] @ csv @ pre) = cursor_at (t # ts) (Suc j)"
      using hcount csv p t by (simp add: cursor_at_def)
    ultimately show ?thesis using Suc by (metis nth_Cons_Suc)
  qed
  with w show ?case by blast
qed

lemma compute_start_lines_nth:
  "distinct (map fst ts) \<Longrightarrow> i < length ts \<Longrightarrow>
   map_of (compute_start_lines ts) (fst (ts ! i)) = Some (manifest_line_count ts + 1 + cursor_at ts i)"
  by (simp add: compute_start_lines_def start_lines_loop_nth)

lemma map_result_nth:
  "(\<And>i. i < length xs \<Longrightarrow> f (xs ! i) = Inr (g i)) \<Longrightarrow>
   map_result f xs = Inr (map g [0..<length xs])"
proof (induction xs arbitrary: g)
  case Nil
  then show ?case by simp
next
  case (Cons x xs)
  have "map_result f xs = Inr (map (\<lambda>i. g (Suc i)) [0..<length xs])"
  proof (rule Cons.IH)
    fix i assume "i < length xs"
    then show "f (xs ! i) = Inr (g (Suc i))" using Cons.prems[of "Suc i"] by simp
  qed
  moreover have "f x = Inr (g 0)" using Cons.prems[of 0] by simp
  moreover have "map g [0..<length (x # xs)] = g 0 # map (\<lambda>i. g (Suc i)) [0..<length xs]"
    unfolding length_Cons by (rule map_upt_Suc)
  ultimately show ?case by (simp del: upt_Suc)
qed

lemma manifest_rows_written:
  assumes "distinct (map fst ts)"
  shows "map_result (manifest_row descriptions (compute_start_lines ts)) (map fst ts) =
         Inr (map (\<lambda>i. row_line descriptions (manifest_line_count ts + 1 + cursor_at ts i) (fst (ts ! i)) @ [nl])
                [0..<length ts])"
proof -
  have "map_result (manifest_row descriptions (compute_start_lines ts)) (map fst ts) =
         Inr (map (\<lambda>i. row_line descriptions (manifest_line_count ts + 1 + cursor_at ts i) (fst (ts ! i)) @ [nl])
                [0..<length (map fst ts)])"
  proof (rule map_result_nth)
    fix i assume "i < length (map fst ts)"
    then have i: "i < length ts" by simp
    then have "map_of (compute_start_lines ts) (fst (ts ! i)) = Some (manifest_line_count ts + 1 + cursor_at ts i)"
      using assms by (simp add: compute_start_lines_nth)
    then show "manifest_row descriptions (compute_start_lines ts) (map fst ts ! i) =
       Inr (row_line descriptions (manifest_line_count ts + 1 + cursor_at ts i) (fst (ts ! i)) @ [nl])"
      using i by (simp add: manifest_row_eq)
  qed
  then show ?thesis by (simp only: length_map)
qed


lemma export_jcsv_text:
  assumes "distinct (map fst ts)" and "write_blocks to_csv descriptions ts = Inr blocks"
  shows "export_jcsv to_csv ts descriptions = Inr (manifest_head @ rows_text descriptions ts @ blocks)"
  unfolding export_jcsv_def Let_def manifest_rows_written[OF assms(1)] assms(2)
  by (simp add: manifest_head_def rows_text_def start_line_at_def)

lemma manifest_head_lines: "count_nl manifest_head = 2" "last manifest_head = nl" "manifest_head \<noteq> []"
  by (simp_all add: manifest_head_def nl_def)

lemma nl_notin_header_line:
  "single_line_table to_csv descriptions t \<Longrightarrow> nl \<notin> set (header_line descriptions t)"
  by (cases t) (auto simp: single_line_table_def header_line_def nl_def)

lemma rows_prefix:
  fixes f :: "nat \<Rightarrow> string"
  assumes "\<And>j. j < n \<Longrightarrow> nl \<notin> set (f j)" and "i < n"
  shows "\<exists>pre post. concat (map (\<lambda>j. f j @ [nl]) [0..<n]) = pre @ f i @ nl # post \<and>
           count_nl pre = i \<and> (pre = [] \<or> last pre = nl)"
proof -
  let ?rs = "map f [0..<n]"
  have split: "[0..<n] = [0..<i] @ i # [Suc i..<n]"
    using assms(2) by (metis upt_conv_Cons upt_add_eq_append zero_le le_add_diff_inverse less_imp_le_nat)
  let ?pre = "concat (map (\<lambda>r. r @ [nl]) (map f [0..<i]))"
  have a: "concat (map (\<lambda>j. f j @ [nl]) [0..<n]) = ?pre @ f i @ nl # concat (map (\<lambda>j. f j @ [nl]) [Suc i..<n])"
    by (subst split) (simp add: comp_def)
  have "count_nl ?pre = length (map f [0..<i]) \<and> (?pre = [] \<or> last ?pre = nl)"
    using assms by (intro concat_lines) auto
  then have b: "count_nl ?pre = i" and c: "?pre = [] \<or> last ?pre = nl"
    by simp_all
  from a b c show ?thesis by blast
qed


lemma start_line_header_aux:
  assumes "distinct (map fst tables)"
    and "list_all (single_line_table to_csv descriptions) tables"
    and "i < length tables"
  shows "\<exists>text. export_jcsv to_csv tables descriptions = Inr text \<and>
           map_of (compute_start_lines tables) (fst (tables ! i)) = Some (start_line_at tables i) \<and>
           text_lines text ! (2 + i) = row_line descriptions (start_line_at tables i) (fst (tables ! i)) \<and>
           text_lines text ! (start_line_at tables i - 1) = header_line descriptions (tables ! i)"
proof -
  define f where "f = (\<lambda>j. row_line descriptions (start_line_at tables j) (fst (tables ! j)))"
  define M where "M = manifest_head"
  define rows where "rows = rows_text descriptions tables"
  define hd_i where "hd_i = header_line descriptions (tables ! i)"
  define n where "n = start_line_at tables i"
  from write_blocks_structure[OF assms(2)] obtain blocks where
    w: "write_blocks to_csv descriptions tables = Inr blocks"
    and b: "\<forall>i<length tables. \<exists>pre post.
        blocks = pre @ [nl] @ header_line descriptions (tables ! i) @ nl # post \<and>
        count_nl pre = cursor_at tables i"
    by blast
  have e: "export_jcsv to_csv tables descriptions = Inr (M @ rows @ blocks)"
    unfolding M_def rows_def by (rule export_jcsv_text[OF assms(1) w])
  have sl: "single_line_table to_csv descriptions (tables ! j)" if "j < length tables" for j
    using assms(2) that by (simp add: list_all_length)
  have rfree: "nl \<notin> set (f j)" if "j < length tables" for j
    using sl[OF that] unfolding f_def
    by (cases "tables ! j") (simp add: single_line_table_def nl_notin_row_line)
  have Mc: "count_nl M = 2" "last M = nl" "M \<noteq> []"
    unfolding M_def by (rule manifest_head_lines)+
  have rows_f: "rows = concat (map (\<lambda>j. f j @ [nl]) [0..<length tables])"
    unfolding rows_def rows_text_def f_def ..
  \<comment> \<open>the manifest row\<close>
  from rows_prefix[of "length tables" f i] rfree assms(3)
  obtain pre post where r: "rows = pre @ f i @ nl # post" "count_nl pre = i" "pre = [] \<or> last pre = nl"
    unfolding rows_f by blast
  have pm: "M @ pre = [] \<or> last (M @ pre) = nl"
    using r(3) Mc(2,3) by (cases "pre = []") simp_all
  have eq1: "M @ rows @ blocks = (M @ pre) @ f i @ nl # (post @ blocks)"
    using r(1) by simp
  have c1: "count_nl (M @ pre) = 2 + i"
    using r(2) Mc(1) by simp
  have "text_lines (M @ rows @ blocks) ! count_nl (M @ pre) = f i"
    unfolding eq1 using pm rfree[OF assms(3)] by (rule nth_line)
  then have row: "text_lines (M @ rows @ blocks) ! (2 + i) = f i"
    unfolding c1 .
  \<comment> \<open>the title line\<close>
  from b assms(3) obtain bpre bpost where
    bb: "blocks = bpre @ [nl] @ hd_i @ nl # bpost"
        "count_nl bpre = cursor_at tables i"
    unfolding hd_i_def by blast
  have "count_nl (concat (map (\<lambda>r. r @ [nl]) (map f [0..<length tables]))) = length (map f [0..<length tables])"
    using rfree by (intro concat_lines[THEN conjunct1]) auto
  then have rc: "count_nl rows = length tables"
    unfolding rows_f by (simp add: comp_def)
  have hfree: "nl \<notin> set hd_i"
    unfolding hd_i_def by (rule nl_notin_header_line[OF sl[OF assms(3)]])
  have pm2: "(M @ rows @ bpre @ [nl]) = [] \<or> last (M @ rows @ bpre @ [nl]) = nl"
    by simp
  have eq2: "M @ rows @ blocks = (M @ rows @ bpre @ [nl]) @ hd_i @ nl # bpost"
    using bb(1) by simp
  have c2: "count_nl (M @ rows @ bpre @ [nl]) = n - 1"
    using Mc(1) rc bb(2) by (simp add: n_def start_line_at_def manifest_line_count_def)
  have "text_lines (M @ rows @ blocks) ! count_nl (M @ rows @ bpre @ [nl]) = hd_i"
    unfolding eq2 using pm2 hfree by (rule nth_line)
  then have hdr: "text_lines (M @ rows @ blocks) ! (n - 1) = hd_i"
    unfolding c2 .
  have sln: "map_of (compute_start_lines tables) (fst (tables ! i)) = Some n"
    using assms by (simp add: compute_start_lines_nth n_def start_line_at_def)
  have "export_jcsv to_csv tables descriptions = Inr (M @ rows @ blocks) \<and>
        map_of (compute_start_lines tables) (fst (tables ! i)) = Some (start_line_at tables i) \<and>
        text_lines (M @ rows @ blocks) ! (2 + i) =
          row_line descriptions (start_line_at tables i) (fst (tables ! i)) \<and>
        text_lines (M @ rows @ blocks) ! (start_line_at tables i - 1) =
          header_line descriptions (tables ! i)"
    using e sln row hdr unfolding f_def n_def hd_i_def by simp
  then show ?thesis by blast
qed

lemma start_line_at_pos: "0 < start_line_at tables i"
  by (simp add: start_line_at_def)


text \<open>
  Where no table holds a line break the offsets are right.  For a table map with distinct
  names whose tables are all \<open>single_line_table\<close>, the writer succeeds, row \<open>2 + i\<close> of
  the text is the manifest row of the \<open>i\<close>-th table and records its \<open>start_line\<close> \<open>n\<close>, and
  line \<open>n\<close> of the text (counting from one) is the title line \<open>#name{...}\<close> of that table.
\<close>

lemma manifest_start_line_is_header_line:
  assumes "distinct (map fst tables)"
    and "list_all (single_line_table to_csv descriptions) tables"
    and "i < length tables"
  shows "\<exists>text n. export_jcsv to_csv tables descriptions = Inr text \<and>
           map_of (compute_start_lines tables) (fst (tables ! i)) = Some n \<and>
           text_lines text ! (2 + i) = row_line descriptions n (fst (tables ! i)) \<and>
           0 < n \<and>
           text_lines text ! (n - 1) = header_line descriptions (tables ! i)"
  using start_line_header_aux[OF assms] start_line_at_pos[of tables i] by blast

lemma manifest_start_line_is_header_line_example:
  "distinct (map fst ex_tables) \<and>
   list_all (single_line_table pd_to_csv Map.empty) ex_tables \<and>
   (1::nat) < length ex_tables \<and>
   (\<exists>text n. export_jcsv pd_to_csv ex_tables Map.empty = Inr text \<and>
      map_of (compute_start_lines ex_tables) (fst (ex_tables ! 1)) = Some n \<and>
      text_lines text ! (2 + 1) = row_line Map.empty n (fst (ex_tables ! 1)) \<and>
      0 < n \<and>
      text_lines text ! (n - 1) = header_line Map.empty (ex_tables ! 1))"
proof -
  have a: "distinct (map fst ex_tables)" by code_simp
  have b: "list_all (single_line_table pd_to_csv Map.empty) ex_tables" by code_simp
  have c: "(1::nat) < length ex_tables" by code_simp
  from manifest_start_line_is_header_line[OF a b c] a b c show ?thesis by blast
qed

text \<open>
  C1.  The code at the failing input: the table \<open>notes\<close> has one row whose cell holds a
  line break, and the table \<open>users\<close> follows it.  The offset pass counts one line for the
  row of \<open>notes\<close>, \<open>to_csv\<close> writes the quoted cell on two lines, and the manifest row of
  \<open>users\<close> records \<open>start_line\<close> 10, while line 10 of the emitted text is the empty line
  before the block and the title line of \<open>users\<close> is line 11.
\<close>

theorem manifest_start_line_wrong_after_multiline_cell:
  "(case export_jcsv pd_to_csv [(''notes'', ex_notes), (''users'', ex_users)] Map.empty of
      Inl e \<Rightarrow> False
    | Inr text \<Rightarrow>
        map_of (compute_start_lines [(''notes'', ex_notes), (''users'', ex_users)]) ''users'' = Some 10 \<and>
        text_lines text ! 3 = ''users,10,'' \<and>
        take 5 (drop 5 (text_lines text)) =
          [''#notes{dtypes=[note:str]}'', ''note'', [dquote] @ ''a'', ''b'' @ [dquote], ''''] \<and>
        text_lines text ! (10 - 1) \<noteq> ''#users{dtypes=[id:int,name:str]}'' \<and>
        text_lines text ! (11 - 1) = ''#users{dtypes=[id:int,name:str]}'')"
  by code_simp




section \<open>The block scanner\<close>

declare scan_blocks.simps [simp del]

lemma strip_Nil [simp]: "strip [] = []"
  by (simp add: strip_def rstrip_def lstrip_def)

lemma header_re_match_Nil [simp]: "header_re_match [] = None"
  by (simp add: header_re_match_def)

lemma header_is_hash_line: "header_re_match (strip l) = Some hm \<Longrightarrow> is_hash_line l"
  by (auto simp: header_re_match_def is_hash_line_def startswith_def split: list.splits if_splits)

lemma hash_line_not_blank: "is_hash_line l \<Longrightarrow> \<not> is_blank l"
  by (auto simp: is_hash_line_def is_blank_def startswith_def)

lemma scan_skip_line:
  "header_re_match (strip l) = None \<Longrightarrow>
   scan_blocks rc at (l # ls) t m = scan_blocks rc at ls t m"
  by (simp add: scan_blocks.simps)

lemma scan_skip:
  "list_all (\<lambda>l. header_re_match (strip l) = None) junk \<Longrightarrow>
   scan_blocks rc at (junk @ rest) t m = scan_blocks rc at rest t m"
  by (induction junk) (simp_all add: scan_skip_line)

lemma blank_no_header: "is_blank l \<Longrightarrow> header_re_match (strip l) = None"
  by (simp add: is_blank_def)

lemma dropWhile_blank_prefix:
  "list_all is_blank bs \<Longrightarrow> \<not> is_blank c \<Longrightarrow> dropWhile is_blank (bs @ c # xs) = c # xs"
  by (induction bs) auto

lemma hash_head:
  "rest = [] \<or> is_hash_line (hd rest) \<Longrightarrow>
   takeWhile (\<lambda>ln. \<not> is_hash_line ln) rest = [] \<and>
   dropWhile (\<lambda>ln. \<not> is_hash_line ln) rest = rest"
  by (cases rest) auto

lemma takeWhile_body:
  "list_all (\<lambda>ln. \<not> is_hash_line ln) body \<Longrightarrow> rest = [] \<or> is_hash_line (hd rest) \<Longrightarrow>
   takeWhile (\<lambda>ln. \<not> is_hash_line ln) (body @ rest) = body"
  by (induction body) (simp_all add: hash_head)

lemma dropWhile_body:
  "list_all (\<lambda>ln. \<not> is_hash_line ln) body \<Longrightarrow> rest = [] \<or> is_hash_line (hd rest) \<Longrightarrow>
   dropWhile (\<lambda>ln. \<not> is_hash_line ln) (body @ rest) = rest"
  by (induction body) (simp_all add: hash_head)

lemma scan_block_step:
  assumes "header_re_match (strip h) = Some (name, ms)"
    and "list_all is_blank bs" and "\<not> is_blank c"
    and "list_all (\<lambda>ln. \<not> is_hash_line ln) body"
    and "rest = [] \<or> is_hash_line (hd rest)"
  shows "scan_blocks rc at (h # bs @ c # body @ rest) t m =
     (case build_table rc at (header_md ms) (block_csv c body) of
        Inl e \<Rightarrow> Inl e
      | Inr df \<Rightarrow> scan_blocks rc at rest (dict_set t name df) (dict_set m name (header_md ms)))"
proof -
  have nb: "\<not> is_blank h"
    using assms(1) header_is_hash_line hash_line_not_blank by blast
  have d: "dropWhile is_blank (bs @ c # body @ rest) = c # body @ rest"
    using assms(2,3) by (rule dropWhile_blank_prefix)
  show ?thesis
    by (subst scan_blocks.simps)
       (simp add: nb assms(1) d takeWhile_body[OF assms(4,5)] dropWhile_body[OF assms(4,5)]
          build_table_def header_md_def block_csv_def Let_def split: sum.splits)
qed

lemma scan_pending_header:
  assumes "header_re_match (strip h) = Some (name, ms)" and "list_all is_blank bs"
  shows "scan_blocks rc at (h # bs) t m = Inr (t, dict_set m name (header_md ms))"
proof -
  have nb: "\<not> is_blank h"
    using assms(1) header_is_hash_line hash_line_not_blank by blast
  have d: "dropWhile is_blank bs = []"
    using assms(2) by (induction bs) auto
  show ?thesis
    by (subst scan_blocks.simps) (simp add: nb assms(1) d header_md_def Let_def)
qed

lemma list_all_takeWhile: "list_all P (takeWhile P xs)"
  by (induction xs) auto

lemma top_step_no_header: "header_re_match (strip l) = None \<Longrightarrow> top_step l = Top"
  by (simp add: top_step_def)

lemma top_step_header: "header_re_match (strip l) = Some hm \<Longrightarrow> top_step l = AwaitColumns"
  using header_is_hash_line[of l hm] hash_line_not_blank[of l] by (simp add: top_step_def)

lemma await_blanks: "list_all is_blank bs \<Longrightarrow> foldl scan_step AwaitColumns bs = AwaitColumns"
  by (induction bs) simp_all

lemma body_lines:
  "list_all (\<lambda>ln. \<not> is_hash_line ln) body \<Longrightarrow> foldl scan_step InBody body = InBody"
  by (induction body) simp_all

lemma body_end:
  "tail = [] \<or> is_hash_line (hd tail) \<Longrightarrow> foldl scan_step InBody tail \<noteq> AwaitColumns \<Longrightarrow>
   foldl scan_step Top tail \<noteq> AwaitColumns"
  by (cases tail) auto

lemma skipped_lines:
  "list_all (\<lambda>l. header_re_match (strip l) = None) junk \<Longrightarrow> foldl scan_step Top junk = Top"
  by (induction junk) (simp_all add: top_step_no_header)

text \<open>
  When the scanner does not wait for a column line behind \<open>pre\<close> and \<open>rest\<close> is empty or
  starts with a \<open>#\<close> line, the scan of \<open>pre @ rest\<close> is the scan of \<open>pre\<close> followed by the
  scan of \<open>rest\<close>: the \<open>#\<close> line ends the body it comes upon.
\<close>

lemma scan_blocks_append:
  "scan_state_after pre \<noteq> AwaitColumns \<Longrightarrow> rest = [] \<or> is_hash_line (hd rest) \<Longrightarrow>
   scan_blocks rc at (pre @ rest) t m =
     (case scan_blocks rc at pre t m of
        Inl e \<Rightarrow> Inl e
      | Inr (t', m') \<Rightarrow> scan_blocks rc at rest t' m')"
proof (induction "length pre" arbitrary: pre t m rule: less_induct)
  case less
  show ?case
  proof (cases pre)
    case Nil
    then show ?thesis by (simp add: scan_blocks.simps)
  next
    case (Cons l ls)
    show ?thesis
    proof (cases "header_re_match (strip l)")
      case None
      have "scan_state_after ls \<noteq> AwaitColumns"
        using less.prems(1) Cons top_step_no_header[OF None] by (simp add: scan_state_after_def)
      then have "scan_blocks rc at (ls @ rest) t m =
            (case scan_blocks rc at ls t m of Inl e \<Rightarrow> Inl e | Inr (t', m') \<Rightarrow> scan_blocks rc at rest t' m')"
        using less.hyps[of ls t m] less.prems(2) Cons by simp
      then show ?thesis using None Cons by (simp add: scan_skip_line)
    next
      case (Some hm)
      obtain name ms where hm: "hm = (name, ms)" by (cases hm)
      have st0: "foldl scan_step AwaitColumns ls \<noteq> AwaitColumns"
        using less.prems(1) Cons top_step_header[OF Some] by (simp add: scan_state_after_def)
      have nab: "\<not> list_all is_blank ls"
        using await_blanks[of ls] st0 by blast
      define bs where "bs = takeWhile is_blank ls"
      define after where "after = dropWhile is_blank ls"
      have ls: "ls = bs @ after" by (simp add: bs_def after_def)
      have bsb: "list_all is_blank bs" unfolding bs_def by (rule list_all_takeWhile)
      have "after \<noteq> []" using nab by (auto simp: after_def list_all_iff)
      then obtain c body0 where after: "after = c # body0" by (cases after) auto
      have cnb: "\<not> is_blank c"
        using after hd_dropWhile[of is_blank ls] unfolding after_def by (metis list.sel(1) list.distinct(1))
      define body where "body = takeWhile (\<lambda>ln. \<not> is_hash_line ln) body0"
      define tail where "tail = dropWhile (\<lambda>ln. \<not> is_hash_line ln) body0"
      have body0: "body0 = body @ tail" by (simp add: body_def tail_def)
      have bod: "list_all (\<lambda>ln. \<not> is_hash_line ln) body"
        unfolding body_def by (rule list_all_takeWhile)
      have th: "tail = [] \<or> is_hash_line (hd tail)"
        using hd_dropWhile[of "\<lambda>ln. \<not> is_hash_line ln" body0] by (auto simp: tail_def)
      have pre_eq: "pre = l # bs @ c # body @ tail"
        using Cons ls after body0 by simp
      have tr: "(tail @ rest) = [] \<or> is_hash_line (hd (tail @ rest))"
        using th less.prems(2) by (cases tail) auto
      have "foldl scan_step AwaitColumns ls = foldl scan_step InBody tail"
        unfolding ls after body0 using cnb by (simp add: await_blanks[OF bsb] body_lines[OF bod])
      with st0 have "foldl scan_step InBody tail \<noteq> AwaitColumns" by simp
      with th have st: "scan_state_after tail \<noteq> AwaitColumns"
        unfolding scan_state_after_def by (rule body_end)
      have len: "length tail < length pre" using pre_eq by simp
      have ih: "scan_blocks rc at (tail @ rest) t' m' =
            (case scan_blocks rc at tail t' m' of Inl e \<Rightarrow> Inl e | Inr (t'', m'') \<Rightarrow> scan_blocks rc at rest t'' m'')"
        for t' m'
        using less.hyps[OF len st less.prems(2)] .
      have l1: "scan_blocks rc at (pre @ rest) t m =
         (case build_table rc at (header_md ms) (block_csv c body) of
            Inl e \<Rightarrow> Inl e
          | Inr df \<Rightarrow> scan_blocks rc at (tail @ rest) (dict_set t name df) (dict_set m name (header_md ms)))"
        using scan_block_step[OF Some[unfolded hm] bsb cnb bod tr, of rc at t m] pre_eq by simp
      have l2: "scan_blocks rc at pre t m =
         (case build_table rc at (header_md ms) (block_csv c body) of
            Inl e \<Rightarrow> Inl e
          | Inr df \<Rightarrow> scan_blocks rc at tail (dict_set t name df) (dict_set m name (header_md ms)))"
        using scan_block_step[OF Some[unfolded hm] bsb cnb bod th, of rc at t m] pre_eq by simp
      show ?thesis unfolding l1 l2 ih by (simp split: sum.splits)
    qed
  qed
qed

text \<open>
  C10 (as amended).  The scanner's input is \<open>pre\<close>, then a \<open>#\<close> line \<open>x\<close> that does not
  match the header pattern, then lines \<open>junk\<close> none of which matches it, then \<open>rest\<close>,
  which is empty or starts with a matching title line; and the scanner does not wait for
  a column line behind \<open>pre\<close>, so that \<open>x\<close> is not taken as one.  Then \<open>x\<close> ends the body
  it comes upon and starts no block: the blocks of \<open>pre\<close> are built from the lines of \<open>pre\<close>
  alone and the scan goes on at \<open>rest\<close> with the tables and the metadata of \<open>pre\<close>.  The
  title line at the head of \<open>rest\<close> ends the body in the same way when \<open>x\<close> and \<open>junk\<close> are
  not there.  So the result of the scan, tables and errors alike, is that of the input
  without \<open>x\<close> and \<open>junk\<close>; and so is the result of the parse when these are the lines
  that the manifest reader leaves to the scanner.  In particular, behind a title line \<open>h\<close>,
  blank lines \<open>bs\<close> and the first non-blank line \<open>c\<close>, which is the column line whatever
  it holds, the body ends at \<open>x\<close>: the table is built from \<open>c\<close> and the lines \<open>body\<close>
  before \<open>x\<close>, and nothing of \<open>x\<close> and \<open>junk\<close> is in it.
\<close>

theorem junk_after_hash_discarded:
  assumes "scan_state_after pre \<noteq> AwaitColumns"
    and "is_hash_line x" and "header_re_match (strip x) = None"
    and "list_all (\<lambda>l. header_re_match (strip l) = None) junk"
    and "rest = [] \<or> header_re_match (strip (hd rest)) \<noteq> None"
  shows "scan_blocks rc at (pre @ x # junk @ rest) t m =
           (case scan_blocks rc at pre t m of
              Inl e \<Rightarrow> Inl e
            | Inr (t', m') \<Rightarrow> scan_blocks rc at rest t' m') \<and>
         scan_blocks rc at (pre @ rest) t m =
           (case scan_blocks rc at pre t m of
              Inl e \<Rightarrow> Inl e
            | Inr (t', m') \<Rightarrow> scan_blocks rc at rest t' m') \<and>
         scan_blocks rc at (pre @ x # junk @ rest) t m = scan_blocks rc at (pre @ rest) t m \<and>
         (parse_manifest lines = Inr (mm, pre @ x # junk @ rest) \<longrightarrow>
          parse_lines rc at lines =
            (case scan_blocks rc at (pre @ rest) [] [] of
               Inl e \<Rightarrow> Inl e
             | Inr (tables, metadata) \<Rightarrow> resolve_refs tables metadata)) \<and>
         (header_re_match (strip h) = Some (name, ms) \<and> list_all is_blank bs \<and> \<not> is_blank c \<and>
          list_all (\<lambda>ln. \<not> is_hash_line ln) body \<longrightarrow>
          scan_blocks rc at (h # bs @ c # body @ x # junk @ rest) t m =
            (case build_table rc at (header_md ms) (block_csv c body) of
               Inl e \<Rightarrow> Inl e
             | Inr df \<Rightarrow>
                 scan_blocks rc at rest (dict_set t name df) (dict_set m name (header_md ms))))"
proof -
  have r: "rest = [] \<or> is_hash_line (hd rest)"
    using assms(5) header_is_hash_line by auto
  have x: "(x # junk @ rest) = [] \<or> is_hash_line (hd (x # junk @ rest))"
    using assms(2) by simp
  have j: "list_all (\<lambda>l. header_re_match (strip l) = None) (x # junk)"
    using assms(3,4) by simp
  have "scan_blocks rc at ((x # junk) @ rest) t' m' = scan_blocks rc at rest t' m'" for t' m'
    using j by (rule scan_skip)
  then have s: "scan_blocks rc at (x # junk @ rest) t' m' = scan_blocks rc at rest t' m'" for t' m'
    by simp
  have a: "scan_blocks rc at (pre @ x # junk @ rest) t' m' =
           (case scan_blocks rc at pre t' m' of
              Inl e \<Rightarrow> Inl e
            | Inr (t'', m'') \<Rightarrow> scan_blocks rc at rest t'' m'')" for t' m'
    unfolding scan_blocks_append[OF assms(1) x] s ..
  have b: "scan_blocks rc at (pre @ x # junk @ rest) t' m' = scan_blocks rc at (pre @ rest) t' m'"
    for t' m'
    unfolding a scan_blocks_append[OF assms(1) r] ..
  have c: "parse_lines rc at lines =
            (case scan_blocks rc at (pre @ rest) [] [] of
               Inl e \<Rightarrow> Inl e
             | Inr (tables, metadata) \<Rightarrow> resolve_refs tables metadata)"
    if "parse_manifest lines = Inr (mm, pre @ x # junk @ rest)"
    using that by (simp add: parse_lines_def b)
  have d: "scan_blocks rc at (h # bs @ c # body @ x # junk @ rest) t m =
            (case build_table rc at (header_md ms) (block_csv c body) of
               Inl e \<Rightarrow> Inl e
             | Inr df \<Rightarrow>
                 scan_blocks rc at rest (dict_set t name df) (dict_set m name (header_md ms)))"
    if "header_re_match (strip h) = Some (name, ms)" "list_all is_blank bs" "\<not> is_blank c"
      "list_all (\<lambda>ln. \<not> is_hash_line ln) body"
    unfolding scan_block_step[OF that x] s ..
  from a[of t m] scan_blocks_append[OF assms(1) r, of rc at t m] b[of t m] c d
  show ?thesis by blast
qed

theorem junk_after_hash_discarded_witness:
  "scan_state_after (take 4 (readlines doc_note)) \<noteq> AwaitColumns \<and>
   is_hash_line (''# note'' @ [nl]) \<and> header_re_match (strip (''# note'' @ [nl])) = None \<and>
   list_all (\<lambda>l. header_re_match (strip l) = None) [''lost,1'' @ [nl], ''2'' @ [nl]] \<and>
   (drop 7 (readlines doc_note) = [] \<or>
    header_re_match (strip (hd (drop 7 (readlines doc_note)))) \<noteq> None) \<and>
   parse_manifest (readlines doc_note) =
     Inr ([], take 4 (readlines doc_note) @ (''# note'' @ [nl]) #
              [''lost,1'' @ [nl], ''2'' @ [nl]] @ drop 7 (readlines doc_note)) \<and>
   scan_blocks pd_read_csv pd_astype
     (take 4 (readlines doc_note) @ (''# note'' @ [nl]) #
      [''lost,1'' @ [nl], ''2'' @ [nl]] @ drop 7 (readlines doc_note)) [] [] =
     (case scan_blocks pd_read_csv pd_astype (take 4 (readlines doc_note)) [] [] of
        Inl e \<Rightarrow> Inl e
      | Inr (t', m') \<Rightarrow> scan_blocks pd_read_csv pd_astype (drop 7 (readlines doc_note)) t' m') \<and>
   scan_blocks pd_read_csv pd_astype (take 4 (readlines doc_note) @ drop 7 (readlines doc_note)) [] [] =
     (case scan_blocks pd_read_csv pd_astype (take 4 (readlines doc_note)) [] [] of
        Inl e \<Rightarrow> Inl e
      | Inr (t', m') \<Rightarrow> scan_blocks pd_read_csv pd_astype (drop 7 (readlines doc_note)) t' m') \<and>
   scan_blocks pd_read_csv pd_astype
     (take 4 (readlines doc_note) @ (''# note'' @ [nl]) #
      [''lost,1'' @ [nl], ''2'' @ [nl]] @ drop 7 (readlines doc_note)) [] [] =
     scan_blocks pd_read_csv pd_astype (take 4 (readlines doc_note) @ drop 7 (readlines doc_note)) [] [] \<and>
   parse_lines pd_read_csv pd_astype (readlines doc_note) =
     (case scan_blocks pd_read_csv pd_astype
             (take 4 (readlines doc_note) @ drop 7 (readlines doc_note)) [] [] of
        Inl e \<Rightarrow> Inl e
      | Inr (tables, metadata) \<Rightarrow> resolve_refs tables metadata) \<and>
   header_re_match (strip (''#a'' @ [nl])) = Some (''a'', None) \<and>
   list_all is_blank [[nl]] \<and> \<not> is_blank (''x'' @ [nl]) \<and>
   list_all (\<lambda>ln. \<not> is_hash_line ln) [''1'' @ [nl]] \<and>
   scan_blocks pd_read_csv pd_astype
     ((''#a'' @ [nl]) # [[nl]] @ (''x'' @ [nl]) # [''1'' @ [nl]] @ (''# note'' @ [nl]) #
      [''lost,1'' @ [nl], ''2'' @ [nl]] @ drop 7 (readlines doc_note)) [] [] =
     (case build_table pd_read_csv pd_astype (header_md None) (block_csv (''x'' @ [nl]) [''1'' @ [nl]]) of
        Inl e \<Rightarrow> Inl e
      | Inr df \<Rightarrow>
          scan_blocks pd_read_csv pd_astype (drop 7 (readlines doc_note))
            (dict_set [] ''a'' df) (dict_set [] ''a'' (header_md None))) \<and>
   build_table pd_read_csv pd_astype (header_md None) (block_csv (''x'' @ [nl]) [''1'' @ [nl]]) =
     Inr \<lparr>df_len = 1, df_columns = [\<lparr>col_name = ''x'', col_dtype = DInt64, col_cells = [CInt 1]\<rparr>]\<rparr> \<and>
   parse_jcsv pd_read_csv pd_astype doc_note =
     Inr [(''a'', \<lparr>df_len = 1, df_columns =
             [\<lparr>col_name = ''x'', col_dtype = DInt64, col_cells = [CInt 1]\<rparr>]\<rparr>),
          (''b'', \<lparr>df_len = 1, df_columns =
             [\<lparr>col_name = ''y'', col_dtype = DInt64, col_cells = [CInt 5]\<rparr>]\<rparr>)]"
proof -
  have a: "scan_state_after (take 4 (readlines doc_note)) \<noteq> AwaitColumns" by code_simp
  have b: "is_hash_line (''# note'' @ [nl])" by code_simp
  have c: "header_re_match (strip (''# note'' @ [nl])) = None" by code_simp
  have d: "list_all (\<lambda>l. header_re_match (strip l) = None) [''lost,1'' @ [nl], ''2'' @ [nl]]"
    by code_simp
  have e: "drop 7 (readlines doc_note) = [] \<or>
    header_re_match (strip (hd (drop 7 (readlines doc_note)))) \<noteq> None"
    by code_simp
  have f: "parse_manifest (readlines doc_note) =
     Inr ([], take 4 (readlines doc_note) @ (''# note'' @ [nl]) #
              [''lost,1'' @ [nl], ''2'' @ [nl]] @ drop 7 (readlines doc_note))"
    by code_simp
  have g: "parse_jcsv pd_read_csv pd_astype doc_note =
     Inr [(''a'', \<lparr>df_len = 1, df_columns =
             [\<lparr>col_name = ''x'', col_dtype = DInt64, col_cells = [CInt 1]\<rparr>]\<rparr>),
          (''b'', \<lparr>df_len = 1, df_columns =
             [\<lparr>col_name = ''y'', col_dtype = DInt64, col_cells = [CInt 5]\<rparr>]\<rparr>)]"
    by code_simp
  have h: "header_re_match (strip (''#a'' @ [nl])) = Some (''a'', None)" by code_simp
  have i: "list_all is_blank [[nl]]" by code_simp
  have j: "\<not> is_blank (''x'' @ [nl])" by code_simp
  have k: "list_all (\<lambda>ln. \<not> is_hash_line ln) [''1'' @ [nl]]" by code_simp
  have l: "build_table pd_read_csv pd_astype (header_md None) (block_csv (''x'' @ [nl]) [''1'' @ [nl]]) =
     Inr \<lparr>df_len = 1, df_columns = [\<lparr>col_name = ''x'', col_dtype = DInt64, col_cells = [CInt 1]\<rparr>]\<rparr>"
    by code_simp
  from junk_after_hash_discarded[OF a b c d e, of pd_read_csv pd_astype "[]" "[]"
      "readlines doc_note" "[]" "''#a'' @ [nl]" "''a''" None "[[nl]]" "''x'' @ [nl]" "[''1'' @ [nl]]"]
    a b c d e f g h i j k l
  show ?thesis by blast
qed

text \<open>
  C10 as stated fails when the \<open>#\<close> line is the first non-blank line behind a title
  line: \<open># note\<close> is taken as the column line of block \<open>a\<close>, and the lines \<open>x\<close> and \<open>1\<close>,
  which lie between it and the next title line \<open>#b\<close>, are returned as the rows of table
  \<open>a\<close>.
\<close>

theorem junk_after_hash_counterexample:
  "is_hash_line (''# note'' @ [nl]) \<and> header_re_match (strip (''# note'' @ [nl])) = None \<and>
   parse_jcsv pd_read_csv pd_astype doc_hash_column =
     Inr [(''a'', \<lparr>df_len = 2, df_columns =
             [\<lparr>col_name = ''# note'', col_dtype = DObject, col_cells = [CStr ''x'', CStr ''1'']\<rparr>]\<rparr>),
          (''b'', \<lparr>df_len = 1, df_columns =
             [\<lparr>col_name = ''y'', col_dtype = DInt64, col_cells = [CInt 5]\<rparr>]\<rparr>)]"
  by code_simp


section \<open>The manifest reader\<close>

lemma manifest_rows_fail:
  "list_ex (lacks_required cols) (manifest_section ls) \<Longrightarrow>
   \<exists>e. manifest_rows cols ls mm = Inl e \<and> manifest_failure e"
proof (induction ls arbitrary: mm)
  case Nil
  then show ?case by (simp add: manifest_section_def)
next
  case (Cons l ls)
  have go: "\<not> (is_blank l \<or> is_hash_line l)"
    using Cons.prems by (auto simp: manifest_section_def split: if_splits)
  then have c: "\<not> (strip l = [] \<or> startswith (strip l) ''#'')"
    by (simp add: is_blank_def is_hash_line_def)
  have sec: "manifest_section (l # ls) = l # manifest_section ls"
    using go by (simp add: manifest_section_def)
  show ?case
  proof (cases "lacks_required cols l")
    case True
    then show ?thesis
      using c by (auto simp: lacks_required_def row_dict_def manifest_failure_def Let_def
          split: option.splits)
  next
    case False
    with Cons.prems sec have "list_ex (lacks_required cols) (manifest_section ls)" by simp
    from Cons.IH[OF this] have ih: "\<exists>e. manifest_rows cols ls mm' = Inl e \<and> manifest_failure e" for mm'
      by blast
    show ?thesis
      using c ih by (auto simp: manifest_failure_def Let_def split: option.splits)
  qed
qed

text \<open>
  Whatever the CSV reader and the caster: when a row of the manifest section lacks
  \<open>table\<close> or \<open>start_line\<close>, the manifest reader raises at the first offending row
  (\<open>KeyError\<close>, or \<open>ValueError\<close> when a \<open>start_line\<close> read before is no integer), and the
  whole parse fails with that error; the block scanner does not run.
\<close>

lemma manifest_row_lacking_column_aborts_parse:
  assumes "dropWhile is_blank lines = m # h # rows"
    and "strip m = ''#manifest''"
    and "list_ex (lacks_required (map strip (split_on (CHR '','') (strip h)))) (manifest_section rows)"
  shows "\<exists>e. parse_lines read_csv astype lines = Inl e \<and> manifest_failure e"
proof -
  from manifest_rows_fail[OF assms(3)] obtain e where
    e: "manifest_rows (map strip (split_on (CHR '','') (strip h))) rows [] = Inl e" "manifest_failure e"
    by blast
  have "parse_manifest lines = Inl e"
    using assms(1,2) e(1) by (simp add: parse_manifest_def)
  then have "parse_lines read_csv astype lines = Inl e"
    by (simp add: parse_lines_def)
  with e(2) show ?thesis by blast
qed

lemma manifest_row_lacking_column_aborts_parse_example:
  "dropWhile is_blank (readlines doc_bad_manifest) =
     (''#manifest'' @ [nl]) # (''name,start_line'' @ [nl]) # drop 2 (readlines doc_bad_manifest) \<and>
   strip (''#manifest'' @ [nl]) = ''#manifest'' \<and>
   list_ex (lacks_required (map strip (split_on (CHR '','') (strip (''name,start_line'' @ [nl])))))
     (manifest_section (drop 2 (readlines doc_bad_manifest))) \<and>
   (\<exists>e. parse_lines pd_read_csv pd_astype (readlines doc_bad_manifest) = Inl e \<and> manifest_failure e)"
proof -
  have a: "dropWhile is_blank (readlines doc_bad_manifest) =
     (''#manifest'' @ [nl]) # (''name,start_line'' @ [nl]) # drop 2 (readlines doc_bad_manifest)"
    by code_simp
  have b: "strip (''#manifest'' @ [nl]) = ''#manifest''" by code_simp
  have c: "list_ex (lacks_required (map strip (split_on (CHR '','') (strip (''name,start_line'' @ [nl])))))
     (manifest_section (drop 2 (readlines doc_bad_manifest)))" by code_simp
  from manifest_row_lacking_column_aborts_parse[OF a b c] a b c show ?thesis by blast
qed

text \<open>
  C3.  The code at the failing input: the header of the manifest names no \<open>table\<close>
  column, so its row \<open>users,3\<close> lacks a required column.  The manifest reader raises
  \<open>KeyError\<close>, the parse as a whole ends in that error, and block \<open>users\<close> is not
  returned, although the block scanner, run on the lines behind the manifest section,
  reads it, and the document without its manifest parses to it.
\<close>

theorem manifest_failure_aborts_block_scan:
  "parse_manifest (readlines doc_bad_manifest) = Inl (KeyError ''table'') \<and>
   parse_jcsv pd_read_csv pd_astype doc_bad_manifest = Inl (KeyError ''table'') \<and>
   scan_blocks pd_read_csv pd_astype (drop 3 (readlines doc_bad_manifest)) [] [] =
     Inr ([(''users'', \<lparr>df_len = 1, df_columns =
        [\<lparr>col_name = ''id'', col_dtype = DInt64, col_cells = [CInt 1]\<rparr>,
         \<lparr>col_name = ''name'', col_dtype = DObject, col_cells = [CStr ''Alice'']\<rparr>]\<rparr>)],
          [(''users'', [])]) \<and>
   parse_jcsv pd_read_csv pd_astype (unlines [''#users'', ''id,name'', ''1,Alice'']) =
     Inr [(''users'', \<lparr>df_len = 1, df_columns =
        [\<lparr>col_name = ''id'', col_dtype = DInt64, col_cells = [CInt 1]\<rparr>,
         \<lparr>col_name = ''name'', col_dtype = DObject, col_cells = [CStr ''Alice'']\<rparr>]\<rparr>)]"
  by code_simp

text \<open>
  C4.  The code at the failing input: the third line of block \<open>a\<close> has three fields
  under a header of two, the CSV reader raises, and the parse as a whole ends in that
  error; block \<open>b\<close>, which parses on its own, is not returned.
\<close>

theorem unparseable_block_aborts_parse:
  "parse_jcsv pd_read_csv pd_astype doc_ragged = Inl (PandasError ''ParserError'') \<and>
   parse_jcsv pd_read_csv pd_astype (unlines [''#b'', ''z'', ''1'']) =
     Inr [(''b'', \<lparr>df_len = 1, df_columns =
        [\<lparr>col_name = ''z'', col_dtype = DInt64, col_cells = [CInt 1]\<rparr>]\<rparr>)]"
  by code_simp


section \<open>A trailing title line\<close>

lemma map_fst_dict_set:
  "map fst (dict_set d k v) = (if k \<in> fst ` set d then map fst d else map fst d @ [k])"
  by (induction d) (auto simp: rev_image_eqI)

lemma keys_dict_set: "fst ` set (dict_set d k v) = insert k (fst ` set d)"
proof -
  have "set (map fst (dict_set d k v)) = insert k (set (map fst d))"
    unfolding map_fst_dict_set by auto
  then show ?thesis by simp
qed

lemma dict_set_mem: "map_of (dict_set d k v) k = Some v"
  by (induction d) auto

lemma map_of_Some_key: "map_of d k = Some v \<Longrightarrow> k \<in> fst ` set d"
  by (metis map_of_eq_None_iff option.distinct(1))

lemma resolve_refs_missing:
  "map_of md ''refs'' = Some v \<Longrightarrow> name \<notin> fst ` set tables \<Longrightarrow>
   resolve_refs tables (dict_set metadata name md) =
     (case resolve_refs tables (takeWhile (\<lambda>entry. fst entry \<noteq> name) metadata) of
        Inl e \<Rightarrow> Inl e
      | Inr ts \<Rightarrow> Inl (KeyError name))"
proof (induction metadata arbitrary: tables)
  case Nil
  have "map_of tables name = None"
    using Nil.prems(2) by (simp add: map_of_eq_None_iff)
  then show ?case using Nil.prems(1) by simp
next
  case (Cons entry metadata)
  obtain tbl md' where entry: "entry = (tbl, md')" by (cases entry)
  have none: "map_of tables name = None"
    using Cons.prems(2) by (simp add: map_of_eq_None_iff)
  show ?case
  proof (cases "tbl = name")
    case True
    then show ?thesis using entry none Cons.prems(1) by simp
  next
    case False
    show ?thesis
    proof (cases "map_of md' ''refs''")
      case None
      then show ?thesis using entry False Cons.IH[OF Cons.prems] by simp
    next
      case (Some v')
      show ?thesis
      proof (cases "map_of tables tbl")
        case None
        then show ?thesis using entry False Some by simp
      next
        case df: (Some df)
        show ?thesis
        proof (cases "resolve_columns tables df (iterate v')")
          case (Inl e)
          then show ?thesis using entry False Some df by simp
        next
          case (Inr df')
          have "fst ` set (dict_set tables tbl df') = fst ` set tables"
            using map_of_Some_key[OF df] by (auto simp: keys_dict_set)
          with Cons.prems(2) have "name \<notin> fst ` set (dict_set tables tbl df')" by simp
          from Cons.IH[OF Cons.prems(1) this] show ?thesis
            using entry False Some df Inr by simp
        qed
      qed
    qed
  qed
qed

text \<open>
  C9 (as amended).  The manifest reader leaves to the scanner the lines \<open>pre\<close>, a line
  \<open>h\<close> that matches the header pattern, and blank lines only.  The scanner does not wait
  for a column line behind \<open>pre\<close>, so that it reads \<open>h\<close> as a title line, and \<open>pre\<close> scans
  to \<open>tables\<close> and \<open>metadata\<close> without an error.  Then the scan records the metadata of
  \<open>h\<close> under its name and stores no table: the tables are those of \<open>pre\<close>.  And when that
  metadata has the key \<open>refs\<close> and no earlier block has stored a table under that name,
  the resolution pass raises and the parse returns no tables: the error is \<open>KeyError\<close>
  with the name of the block, unless the resolution of an entry recorded before that name
  raises first, and then it is that error.
\<close>

theorem trailing_header_with_refs_raises:
  assumes "parse_manifest lines = Inr (mm, pre @ h # blanks)"
    and "scan_state_after pre \<noteq> AwaitColumns"
    and "scan_blocks read_csv astype pre [] [] = Inr (tables, metadata)"
    and "header_re_match (strip h) = Some (name, ms)"
    and "list_all is_blank blanks"
  shows "scan_blocks read_csv astype (pre @ h # blanks) [] [] =
           Inr (tables, dict_set metadata name (header_md ms)) \<and>
         (''refs'' \<in> fst ` set (header_md ms) \<and> name \<notin> fst ` set tables \<longrightarrow>
          parse_lines read_csv astype lines =
            (case resolve_refs tables (takeWhile (\<lambda>entry. fst entry \<noteq> name) metadata) of
               Inl e \<Rightarrow> Inl e
             | Inr ts \<Rightarrow> Inl (KeyError name)))"
proof -
  have hh: "(h # blanks) = [] \<or> is_hash_line (hd (h # blanks))"
    using header_is_hash_line[OF assms(4)] by simp
  have s: "scan_blocks read_csv astype (pre @ h # blanks) [] [] =
           Inr (tables, dict_set metadata name (header_md ms))"
    unfolding scan_blocks_append[OF assms(2) hh] assms(3)
    using scan_pending_header[OF assms(4,5)] by simp
  have p: "parse_lines read_csv astype lines =
          resolve_refs tables (dict_set metadata name (header_md ms))"
    using assms(1) s by (simp add: parse_lines_def)
  have "parse_lines read_csv astype lines =
            (case resolve_refs tables (takeWhile (\<lambda>entry. fst entry \<noteq> name) metadata) of
               Inl e \<Rightarrow> Inl e
             | Inr ts \<Rightarrow> Inl (KeyError name))"
    if r: "''refs'' \<in> fst ` set (header_md ms)" and n: "name \<notin> fst ` set tables"
  proof -
    from r obtain v where "map_of (header_md ms) ''refs'' = Some v"
      by (metis map_of_eq_None_iff not_None_eq)
    from resolve_refs_missing[OF this n] p show ?thesis by simp
  qed
  with s show ?thesis by blast
qed

text \<open>
  C9 as stated fails in two ways.  When an earlier block has the same name, its table is
  still stored, the resolution pass finds it, and the parse returns it, its cell resolved
  to a handle to the table itself.  And when the last title line is the first non-blank
  line behind another title line, it is taken as the column line of that block: no
  metadata is recorded for it and the parse returns a table without rows.
\<close>

theorem trailing_header_with_refs_counterexample:
  "parse_jcsv pd_read_csv pd_astype doc_trailing_dup =
     Inr [(''a'', \<lparr>df_len = 1, df_columns =
        [\<lparr>col_name = ''x'', col_dtype = DObject, col_cells = [CRef ''a'']\<rparr>]\<rparr>)] \<and>
   parse_jcsv pd_read_csv pd_astype doc_trailing_column =
     Inr [(''a'', \<lparr>df_len = 0, df_columns =
        [\<lparr>col_name = ''#b{refs=[x]}'', col_dtype = DObject, col_cells = []\<rparr>]\<rparr>)]"
  by code_simp

theorem trailing_header_with_refs_raises_witness:
  "parse_manifest (readlines doc_trailing) =
     Inr ([], take 4 (readlines doc_trailing) @ (''#b{refs=[x]}'' @ [nl]) # [[nl]]) \<and>
   scan_state_after (take 4 (readlines doc_trailing)) \<noteq> AwaitColumns \<and>
   scan_blocks pd_read_csv pd_astype (take 4 (readlines doc_trailing)) [] [] =
     Inr ([(''a'', \<lparr>df_len = 1, df_columns =
             [\<lparr>col_name = ''x'', col_dtype = DObject, col_cells = [CStr ''foo'']\<rparr>]\<rparr>)],
          [(''a'', [])]) \<and>
   header_re_match (strip (''#b{refs=[x]}'' @ [nl])) = Some (''b'', Some ''{refs=[x]}'') \<and>
   list_all is_blank [[nl]] \<and>
   header_md (Some ''{refs=[x]}'') = [(''refs'', Items [''x''])] \<and>
   ''refs'' \<in> fst ` set (header_md (Some ''{refs=[x]}'')) \<and>
   ''b'' \<notin> fst ` set [(''a'', \<lparr>df_len = 1, df_columns =
             [\<lparr>col_name = ''x'', col_dtype = DObject, col_cells = [CStr ''foo'']\<rparr>]\<rparr>)] \<and>
   scan_blocks pd_read_csv pd_astype
      (take 4 (readlines doc_trailing) @ (''#b{refs=[x]}'' @ [nl]) # [[nl]]) [] [] =
      Inr ([(''a'', \<lparr>df_len = 1, df_columns =
             [\<lparr>col_name = ''x'', col_dtype = DObject, col_cells = [CStr ''foo'']\<rparr>]\<rparr>)],
           [(''a'', []), (''b'', [(''refs'', Items [''x''])])]) \<and>
   parse_lines pd_read_csv pd_astype (readlines doc_trailing) = Inl (KeyError ''b'')"
proof -
  let ?ta = "[(''a'', \<lparr>df_len = 1, df_columns =
             [\<lparr>col_name = ''x'', col_dtype = DObject, col_cells = [CStr ''foo'']\<rparr>]\<rparr>)]"
  have a: "parse_manifest (readlines doc_trailing) =
     Inr ([], take 4 (readlines doc_trailing) @ (''#b{refs=[x]}'' @ [nl]) # [[nl]])" by code_simp
  have b: "scan_state_after (take 4 (readlines doc_trailing)) \<noteq> AwaitColumns" by code_simp
  have c: "scan_blocks pd_read_csv pd_astype (take 4 (readlines doc_trailing)) [] [] =
     Inr (?ta, [(''a'', [])])" by code_simp
  have d: "header_re_match (strip (''#b{refs=[x]}'' @ [nl])) = Some (''b'', Some ''{refs=[x]}'')"
    by code_simp
  have e: "list_all is_blank [[nl]]" by code_simp
  have f: "header_md (Some ''{refs=[x]}'') = [(''refs'', Items [''x''])]" by code_simp
  have g: "''refs'' \<in> fst ` set (header_md (Some ''{refs=[x]}''))" unfolding f by simp
  have h: "''b'' \<notin> fst ` set ?ta" by simp
  have r: "resolve_refs ?ta (takeWhile (\<lambda>entry. fst entry \<noteq> ''b'') [(''a'', [])]) = Inr ?ta"
    by simp
  from trailing_header_with_refs_raises[OF a b c d e] g h have
    "scan_blocks pd_read_csv pd_astype
      (take 4 (readlines doc_trailing) @ (''#b{refs=[x]}'' @ [nl]) # [[nl]]) [] [] =
      Inr (?ta, dict_set [(''a'', [])] ''b'' (header_md (Some ''{refs=[x]}'')))"
    and "parse_lines pd_read_csv pd_astype (readlines doc_trailing) =
      (case resolve_refs ?ta (takeWhile (\<lambda>entry. fst entry \<noteq> ''b'') [(''a'', [])]) of
         Inl e \<Rightarrow> Inl e
       | Inr ts \<Rightarrow> Inl (KeyError ''b''))"
    by blast+
  then have "scan_blocks pd_read_csv pd_astype
      (take 4 (readlines doc_trailing) @ (''#b{refs=[x]}'' @ [nl]) # [[nl]]) [] [] =
      Inr (?ta, [(''a'', []), (''b'', [(''refs'', Items [''x''])])])"
    and "parse_lines pd_read_csv pd_astype (readlines doc_trailing) = Inl (KeyError ''b'')"
    unfolding f r by simp_all
  with a b c d e f g h show ?thesis by blast
qed
section \<open>The reference resolver\<close>

lemma map_result_out:
  "map_result f xs = Inr ys \<Longrightarrow>
   length ys = length xs \<and> (\<forall>i<length xs. f (xs ! i) = Inr (ys ! i))"
proof (induction xs arbitrary: ys)
  case Nil
  then show ?case by simp
next
  case (Cons x xs)
  from Cons.prems obtain y ys' where y: "f x = Inr y" "map_result f xs = Inr ys'" "ys = y # ys'"
    by (auto split: sum.splits)
  from Cons.IH[OF y(2)] have ih: "length ys' = length xs" "\<forall>i<length xs. f (xs ! i) = Inr (ys' ! i)"
    by simp_all
  show ?case
  proof (intro conjI allI impI)
    show "length ys = length (x # xs)" using y(3) ih(1) by simp
  next
    fix i assume "i < length (x # xs)"
    then show "f ((x # xs) ! i) = Inr (ys ! i)"
      using y ih(2) by (cases i) simp_all
  qed
qed

lemma find_replace_column_other:
  "x \<noteq> col \<Longrightarrow> find (\<lambda>c. col_name c = col) (replace_column cs x cells) = find (\<lambda>c. col_name c = col) cs"
  by (induction cs) auto

lemma find_replace_column_same:
  "find (\<lambda>c. col_name c = col) cs = Some c \<Longrightarrow>
   find (\<lambda>c. col_name c = col) (replace_column cs col cells) =
     Some (c\<lparr>col_dtype := applied_dtype (col_dtype c) cells,
             col_cells := applied_cells (col_dtype c) cells\<rparr>)"
  by (induction cs) (auto split: if_splits)

lemma applied_cells_object:
  assumes "i < length cells" and "cells ! i = CStr s \<or> cells ! i = CRef s"
  shows "applied_cells d cells = cells"
proof -
  have "cells ! i \<in> set cells" using assms(1) by simp
  with assms(2) have "holds_object cells"
    by (auto simp: holds_object_def list_ex_iff intro!: bexI[of _ "cells ! i"])
  then show ?thesis by (simp add: applied_cells_def)
qed

lemma resolve_cell_resolved:
  assumes "resolve_cell tables x = Inr y" and "x = CStr s \<or> x = resolved tables s"
  shows "y = resolved tables s"
  using assms by (auto simp: resolved_def image_iff split: if_splits) force+

lemma resolve_columns_cell:
  "resolve_columns tables df cols = Inr df' \<Longrightarrow> get_column df col = Some c \<Longrightarrow>
   i < length (col_cells c) \<Longrightarrow>
   col_cells c ! i = (if seen then resolved tables s else CStr s) \<Longrightarrow>
   \<exists>c'. get_column df' col = Some c' \<and> i < length (col_cells c') \<and>
        col_cells c' ! i = (if seen \<or> col \<in> set cols then resolved tables s else CStr s)"
proof (induction cols arbitrary: df c seen)
  case Nil
  then show ?case by simp
next
  case (Cons x cols)
  show ?case
  proof (cases "get_column df x")
    case None
    with Cons.prems(2) have ne: "x \<noteq> col" by auto
    from Cons.prems(1) None have "resolve_columns tables df cols = Inr df'" by simp
    from Cons.IH[OF this Cons.prems(2,3,4)] ne show ?thesis by auto
  next
    case (Some cx)
    from Cons.prems(1) Some obtain cells where
      cells: "map_result (resolve_cell tables) (col_cells cx) = Inr cells"
      and rec: "resolve_columns tables (df\<lparr>df_columns := replace_column (df_columns df) x cells\<rparr>) cols = Inr df'"
      by (auto split: if_splits sum.splits)
    let ?df1 = "df\<lparr>df_columns := replace_column (df_columns df) x cells\<rparr>"
    show ?thesis
    proof (cases "x = col")
      case True
      with Some Cons.prems(2) have cx: "cx = c" by simp
      from map_result_out[OF cells] cx Cons.prems(3)
      have len: "length cells = length (col_cells c)"
        and ci: "resolve_cell tables (col_cells c ! i) = Inr (cells ! i)" by simp_all
      have "col_cells c ! i = CStr s \<or> col_cells c ! i = resolved tables s"
        using Cons.prems(4) by (cases seen) simp_all
      from resolve_cell_resolved[OF ci this] have r: "cells ! i = resolved tables s" .
      have "i < length cells" using len Cons.prems(3) by simp
      moreover have "cells ! i = CStr s \<or> cells ! i = CRef s"
        using r by (simp add: resolved_def)
      ultimately have ac: "applied_cells (col_dtype c) cells = cells"
        by (rule applied_cells_object)
      have g: "get_column ?df1 col =
          Some (c\<lparr>col_dtype := applied_dtype (col_dtype c) cells, col_cells := cells\<rparr>)"
        using Cons.prems(2) True by (simp add: get_column_def find_replace_column_same ac)
      have "\<exists>c'. get_column df' col = Some c' \<and> i < length (col_cells c') \<and>
        col_cells c' ! i = (if True \<or> col \<in> set cols then resolved tables s else CStr s)"
        by (rule Cons.IH[OF rec g]) (use len Cons.prems(3) r in simp_all)
      then show ?thesis using True by simp
    next
      case False
      have g: "get_column ?df1 col = Some c"
        using Cons.prems(2) False by (simp add: get_column_def find_replace_column_other)
      from Cons.IH[OF rec g Cons.prems(3,4)] False show ?thesis by auto
    qed
  qed
qed

lemma map_fst_dict_set2:
  "k \<in> fst ` set d \<Longrightarrow> map fst (dict_set d k v) = map fst d"
  by (induction d) (auto simp: rev_image_eqI)

lemma resolve_refs_keys:
  "resolve_refs tables metadata = Inr tables' \<Longrightarrow> map fst tables' = map fst tables"
proof (induction metadata arbitrary: tables)
  case Nil
  then show ?case by simp
next
  case (Cons entry metadata)
  obtain tbl md where entry: "entry = (tbl, md)" by (cases entry)
  show ?case
  proof (cases "map_of md ''refs''")
    case None
    with Cons entry show ?thesis by simp
  next
    case (Some v)
    with Cons.prems entry obtain df df' where
      d: "map_of tables tbl = Some df" "resolve_columns tables df (iterate v) = Inr df'"
         "resolve_refs (dict_set tables tbl df') metadata = Inr tables'"
      by (auto split: option.splits sum.splits)
    from Cons.IH[OF d(3)] map_fst_dict_set2[OF map_of_Some_key[OF d(1)]] show ?thesis by simp
  qed
qed

lemma resolve_refs_other:
  "resolve_refs tables metadata = Inr tables' \<Longrightarrow> k \<notin> fst ` set metadata \<Longrightarrow>
   map_of tables' k = map_of tables k"
proof (induction metadata arbitrary: tables)
  case Nil
  then show ?case by simp
next
  case (Cons entry metadata)
  obtain tbl md where entry: "entry = (tbl, md)" by (cases entry)
  from Cons.prems(2) entry have k: "k \<noteq> tbl" "k \<notin> fst ` set metadata" by auto
  show ?case
  proof (cases "map_of md ''refs''")
    case None
    with Cons.prems(1) entry have "resolve_refs tables metadata = Inr tables'" by simp
    from Cons.IH[OF this k(2)] show ?thesis .
  next
    case (Some v)
    with Cons.prems entry obtain df df' where
      d: "map_of tables tbl = Some df" "resolve_columns tables df (iterate v) = Inr df'"
         "resolve_refs (dict_set tables tbl df') metadata = Inr tables'"
      by (auto split: option.splits sum.splits)
    from Cons.IH[OF d(3) k(2)] k(1) show ?thesis by (simp add: map_of_dict_set)
  qed
qed

lemma resolve_refs_cell:
  "distinct (map fst metadata) \<Longrightarrow> resolve_refs tables metadata = Inr tables' \<Longrightarrow>
   map_of metadata tbl = Some md \<Longrightarrow> map_of md ''refs'' = Some v \<Longrightarrow> col \<in> set (iterate v) \<Longrightarrow>
   map_of tables tbl = Some df \<Longrightarrow> get_column df col = Some c \<Longrightarrow>
   i < length (col_cells c) \<Longrightarrow> col_cells c ! i = CStr s \<Longrightarrow>
   \<exists>df' c'. map_of tables' tbl = Some df' \<and> get_column df' col = Some c' \<and>
     col_cells c' ! i = resolved tables s"
proof (induction metadata arbitrary: tables)
  case Nil
  then show ?case by simp
next
  case (Cons entry metadata)
  obtain t0 md0 where entry: "entry = (t0, md0)" by (cases entry)
  from Cons.prems(1) entry have dist: "distinct (map fst metadata)" "t0 \<notin> fst ` set metadata"
    by auto
  show ?case
  proof (cases "t0 = tbl")
    case True
    with Cons.prems(3) entry have md0: "md0 = md" by simp
    from Cons.prems(2) entry True md0 Cons.prems(4,6) obtain df1 where
      d: "resolve_columns tables df (iterate v) = Inr df1"
         "resolve_refs (dict_set tables tbl df1) metadata = Inr tables'"
      by (auto split: sum.splits)
    have "col_cells c ! i = (if False then resolved tables s else CStr s)"
      using Cons.prems(9) by simp
    from resolve_columns_cell[OF d(1) Cons.prems(7,8) this] Cons.prems(5)
    obtain c' where c': "get_column df1 col = Some c'" "col_cells c' ! i = resolved tables s"
      by auto
    have "map_of tables' tbl = map_of (dict_set tables tbl df1) tbl"
      using resolve_refs_other[OF d(2)] dist(2) True by simp
    then have "map_of tables' tbl = Some df1" by (simp add: map_of_dict_set)
    with c' show ?thesis by blast
  next
    case False
    with Cons.prems(3) entry have m: "map_of metadata tbl = Some md" by simp
    show ?thesis
    proof (cases "map_of md0 ''refs''")
      case None
      with Cons.prems(2) entry have "resolve_refs tables metadata = Inr tables'" by simp
      from Cons.IH[OF dist(1) this m Cons.prems(4,5,6,7,8,9)] show ?thesis .
    next
      case (Some v0)
      with Cons.prems(2) entry obtain df0 df0' where
        d: "map_of tables t0 = Some df0" "resolve_columns tables df0 (iterate v0) = Inr df0'"
           "resolve_refs (dict_set tables t0 df0') metadata = Inr tables'"
        by (auto split: option.splits sum.splits)
      have look: "map_of (dict_set tables t0 df0') tbl = Some df"
        using False Cons.prems(6) by (simp add: map_of_dict_set)
      have keys: "fst ` set (dict_set tables t0 df0') = fst ` set tables"
        using map_fst_dict_set2[OF map_of_Some_key[OF d(1)], of df0'] by (metis set_map)
      from Cons.IH[OF dist(1) d(3) m Cons.prems(4,5) look Cons.prems(7,8,9)]
      show ?thesis by (simp add: resolved_def keys)
    qed
  qed
qed

text \<open>
  C6.  After the post-pass has run to its end, for a block \<open>tbl\<close> whose metadata has
  \<open>refs\<close>, a listed column \<open>col\<close> present in its table, and a cell of that column that
  held the string \<open>s\<close> before the pass: the cell holds the handle to table \<open>s\<close> when the
  document has a table of that name, and still holds the string \<open>s\<close> otherwise.  The
  pass keeps the table names, so the handle names a table of the document.
\<close>

theorem refs_resolved_after_pass:
  assumes "distinct (map fst metadata)"
    and "resolve_refs tables metadata = Inr tables'"
    and "map_of metadata tbl = Some md" and "map_of md ''refs'' = Some v"
    and "col \<in> set (iterate v)"
    and "map_of tables tbl = Some df" and "get_column df col = Some c"
    and "i < length (col_cells c)" and "col_cells c ! i = CStr s"
  shows "map fst tables' = map fst tables \<and>
         (\<exists>df' c'. map_of tables' tbl = Some df' \<and> get_column df' col = Some c' \<and>
            col_cells c' ! i = (if s \<in> fst ` set tables then CRef s else CStr s))"
  using resolve_refs_keys[OF assms(2)] resolve_refs_cell[OF assms]
  by (simp add: resolved_def)


theorem refs_resolved_after_pass_witness:
  "distinct (map fst ex_metadata) \<and>
   resolve_refs ex_ref_tables ex_metadata =
     Inr [(''users'', ex_users),
          (''orders'', \<lparr>df_len = 2, df_columns =
             [\<lparr>col_name = ''oid'', col_dtype = DInt64, col_cells = [CInt 100, CInt 200]\<rparr>,
              \<lparr>col_name = ''user'', col_dtype = DObject,
                 col_cells = [CRef ''users'', CStr ''nobody'']\<rparr>]\<rparr>)] \<and>
   map_of ex_metadata ''orders'' = Some [(''refs'', Items [''user''])] \<and>
   map_of [(''refs'', Items [''user''])] ''refs'' = Some (Items [''user'']) \<and>
   ''user'' \<in> set (iterate (Items [''user''])) \<and>
   map_of ex_ref_tables ''orders'' = Some ex_orders_refs \<and>
   get_column ex_orders_refs ''user'' =
     Some \<lparr>col_name = ''user'', col_dtype = DObject, col_cells = [CStr ''users'', CStr ''nobody'']\<rparr> \<and>
   (0::nat) < length [CStr ''users'', CStr ''nobody''] \<and>
   [CStr ''users'', CStr ''nobody''] ! 0 = CStr ''users'' \<and>
   (\<exists>df' c'. map_of [(''users'', ex_users),
          (''orders'', \<lparr>df_len = 2, df_columns =
             [\<lparr>col_name = ''oid'', col_dtype = DInt64, col_cells = [CInt 100, CInt 200]\<rparr>,
              \<lparr>col_name = ''user'', col_dtype = DObject,
                 col_cells = [CRef ''users'', CStr ''nobody'']\<rparr>]\<rparr>)] ''orders'' = Some df' \<and>
      get_column df' ''user'' = Some c' \<and> col_cells c' ! 0 = CRef ''users'')"
proof -
  let ?out = "[(''users'', ex_users),
          (''orders'', \<lparr>df_len = 2, df_columns =
             [\<lparr>col_name = ''oid'', col_dtype = DInt64, col_cells = [CInt 100, CInt 200]\<rparr>,
              \<lparr>col_name = ''user'', col_dtype = DObject,
                 col_cells = [CRef ''users'', CStr ''nobody'']\<rparr>]\<rparr>)]"
  let ?c = "\<lparr>col_name = ''user'', col_dtype = DObject, col_cells = [CStr ''users'', CStr ''nobody'']\<rparr>"
  have a: "distinct (map fst ex_metadata)" by code_simp
  have b: "resolve_refs ex_ref_tables ex_metadata = Inr ?out" by code_simp
  have c: "map_of ex_metadata ''orders'' = Some [(''refs'', Items [''user''])]" by code_simp
  have d: "map_of [(''refs'', Items [''user''])] ''refs'' = Some (Items [''user''])" by code_simp
  have e: "''user'' \<in> set (iterate (Items [''user'']))" by simp
  have f: "map_of ex_ref_tables ''orders'' = Some ex_orders_refs" by code_simp
  have g: "get_column ex_orders_refs ''user'' = Some ?c" by code_simp
  have h: "(0::nat) < length (col_cells ?c)" by simp
  have i: "col_cells ?c ! 0 = CStr ''users''" by simp
  have k: "''users'' \<in> fst ` set ex_ref_tables" by (simp add: ex_ref_tables_def)
  from refs_resolved_after_pass[OF a b c d e f g h i] k
  have "\<exists>df' c'. map_of ?out ''orders'' = Some df' \<and>
      get_column df' ''user'' = Some c' \<and> col_cells c' ! 0 = CRef ''users''"
    by simp
  with a b c d e f g show ?thesis by simp
qed

section \<open>Dtype casting\<close>

lemma build_dtype_map_keys: "fst ` set (build_dtype_map dts) \<subseteq> fst ` set dts"
  by (induction dts rule: build_dtype_map.induct) auto

lemma map_of_build_dtype_map:
  "distinct (map fst dts) \<Longrightarrow>
   map_of (build_dtype_map dts) col =
     (case map_of dts col of
        None \<Rightarrow> None
      | Some t \<Rightarrow> if t = ''int'' then Some ''Int64'' else if t = ''float'' then Some ''float'' else None)"
proof (induction dts)
  case Nil
  then show ?case by simp
next
  case (Cons entry dts)
  obtain c t where entry: "entry = (c, t)" by (cases entry)
  have "c \<notin> fst ` set (build_dtype_map dts)"
    using Cons.prems entry build_dtype_map_keys[of dts] by auto
  then have n: "map_of (build_dtype_map dts) c = None"
    by (simp add: map_of_eq_None_iff)
  from Cons.prems have "distinct (map fst dts)" by simp
  from Cons.IH[OF this] n entry show ?case by (auto split: option.splits)
qed

lemma build_dtype_map_none:
  "list_all (\<lambda>(c, t). t \<noteq> ''int'' \<and> t \<noteq> ''float'') dts \<Longrightarrow> build_dtype_map dts = []"
  by (induction dts rule: build_dtype_map.induct) auto

lemma cast_column_name: "cast_column t c = Inr c' \<Longrightarrow> col_name c' = col_name c"
  by (auto simp: cast_column_def split: if_splits sum.splits)

lemma map_result_find:
  assumes "map_result f cs = Inr cs'"
    and "\<And>c c'. f c = Inr c' \<Longrightarrow> col_name c' = col_name c"
    and "\<And>c. col_name c = col \<Longrightarrow> f c = Inr c"
  shows "find (\<lambda>c. col_name c = col) cs' = find (\<lambda>c. col_name c = col) cs"
  using assms(1)
proof (induction cs arbitrary: cs')
  case Nil
  then show ?case by simp
next
  case (Cons c cs)
  from Cons.prems obtain d ds where d: "f c = Inr d" "map_result f cs = Inr ds" "cs' = d # ds"
    by (auto split: sum.splits)
  show ?case
  proof (cases "col_name c = col")
    case True
    with assms(3) d(1) have "d = c" by simp
    with True d(3) show ?thesis by simp
  next
    case False
    with assms(2)[OF d(1)] have "col_name d \<noteq> col" by simp
    with False d(3) Cons.IH[OF d(2)] show ?thesis by simp
  qed
qed

lemma pd_astype_untouched:
  assumes "pd_astype df dtype_map = Inr df'" and "map_of dtype_map col = None"
  shows "get_column df' col = get_column df col"
proof -
  let ?f = "\<lambda>c. case map_of dtype_map (col_name c) of None \<Rightarrow> Inr c | Some t \<Rightarrow> cast_column t c"
  from assms(1) obtain cols where
    c: "map_result ?f (df_columns df) = Inr cols" "df' = df\<lparr>df_columns := cols\<rparr>"
    by (auto simp: pd_astype_def split: option.splits sum.splits prod.splits)
  have "find (\<lambda>c. col_name c = col) cols = find (\<lambda>c. col_name c = col) (df_columns df)"
  proof (rule map_result_find[OF c(1)])
    fix c c' assume "?f c = Inr c'"
    then show "col_name c' = col_name c"
      by (auto split: option.splits dest: cast_column_name)
  next
    fix c :: column assume "col_name c = col"
    then show "?f c = Inr c" using assms(2) by simp
  qed
  with c(2) show ?thesis by (simp add: get_column_def)
qed

text \<open>
  What the parser asks of the caster.  For the dict \<open>dts\<close> under \<open>dtypes\<close>: a column
  tagged \<open>int\<close> is cast to the nullable \<open>Int64\<close>, a column tagged \<open>float\<close> to \<open>float\<close>, and
  for any other tag and for a column without a tag no cast is requested; the caster is
  called only when some cast is requested, so unrecognised tags alone raise nothing; a
  column for which no cast is requested comes out of the caster as the CSV reader made
  it.  In the two documents evaluated, the values \<open>1\<close>, empty and \<open>3\<close> under tag \<open>int\<close>
  beside a second column give a nullable integer column whose second cell is null, and
  under tag \<open>float\<close> the integers \<open>1\<close>, \<open>2\<close> become floats.
\<close>

lemma dtype_casting:
  assumes "distinct (map fst dts)" and "map_of md ''dtypes'' = Some (DTypeMap dts)"
  shows "map_of (build_dtype_map dts) col =
           (case map_of dts col of
              None \<Rightarrow> None
            | Some t \<Rightarrow> if t = ''int'' then Some ''Int64''
                       else if t = ''float'' then Some ''float'' else None) \<and>
         apply_dtypes astype md df =
           (if build_dtype_map dts = [] then Inr df else astype df (build_dtype_map dts)) \<and>
         (list_all (\<lambda>(c, t). t \<noteq> ''int'' \<and> t \<noteq> ''float'') dts \<longrightarrow>
            apply_dtypes astype md df = Inr df) \<and>
         (pd_astype df (build_dtype_map dts) = Inr df' \<and> map_of (build_dtype_map dts) col = None \<longrightarrow>
            get_column df' col = get_column df col) \<and>
         parse_jcsv pd_read_csv pd_astype doc_int_gap =
           Inr [(''t'', \<lparr>df_len = 3, df_columns =
             [\<lparr>col_name = ''id'', col_dtype = DNullableInt64, col_cells = [CInt 1, CNull, CInt 3]\<rparr>,
              \<lparr>col_name = ''name'', col_dtype = DObject,
                 col_cells = [CStr ''Ann'', CStr ''Bob'', CStr ''Cy'']\<rparr>]\<rparr>)] \<and>
         parse_jcsv pd_read_csv pd_astype doc_float_tag =
           Inr [(''t'', \<lparr>df_len = 2, df_columns =
             [\<lparr>col_name = ''x'', col_dtype = DFloat64, col_cells = [CFloat 1 0, CFloat 2 0]\<rparr>,
              \<lparr>col_name = ''tag'', col_dtype = DObject, col_cells = [CStr ''a'', CStr ''b'']\<rparr>]\<rparr>)]"
proof -
  have a: "apply_dtypes astype md df =
           (if build_dtype_map dts = [] then Inr df else astype df (build_dtype_map dts))"
    using assms(2) by (simp add: apply_dtypes_def Let_def)
  have b: "list_all (\<lambda>(c, t). t \<noteq> ''int'' \<and> t \<noteq> ''float'') dts \<longrightarrow>
            apply_dtypes astype md df = Inr df"
    using a build_dtype_map_none[of dts] by simp
  have c: "pd_astype df (build_dtype_map dts) = Inr df' \<and> map_of (build_dtype_map dts) col = None \<longrightarrow>
            get_column df' col = get_column df col"
    using pd_astype_untouched by blast
  have d: "parse_jcsv pd_read_csv pd_astype doc_int_gap =
           Inr [(''t'', \<lparr>df_len = 3, df_columns =
             [\<lparr>col_name = ''id'', col_dtype = DNullableInt64, col_cells = [CInt 1, CNull, CInt 3]\<rparr>,
              \<lparr>col_name = ''name'', col_dtype = DObject,
                 col_cells = [CStr ''Ann'', CStr ''Bob'', CStr ''Cy'']\<rparr>]\<rparr>)]"
    by code_simp
  have e: "parse_jcsv pd_read_csv pd_astype doc_float_tag =
           Inr [(''t'', \<lparr>df_len = 2, df_columns =
             [\<lparr>col_name = ''x'', col_dtype = DFloat64, col_cells = [CFloat 1 0, CFloat 2 0]\<rparr>,
              \<lparr>col_name = ''tag'', col_dtype = DObject, col_cells = [CStr ''a'', CStr ''b'']\<rparr>]\<rparr>)]"
    by code_simp
  from map_of_build_dtype_map[OF assms(1), of col] a b c d e show ?thesis by blast
qed

lemma dtype_casting_example:
  "distinct (map fst [(''id'', ''int''), (''name'', ''str'')]) \<and>
   map_of (parse_metadata ''dtypes=[id:int,name:str]'') ''dtypes'' =
     Some (DTypeMap [(''id'', ''int''), (''name'', ''str'')]) \<and>
   map_of (build_dtype_map [(''id'', ''int''), (''name'', ''str'')]) ''id'' = Some ''Int64'' \<and>
   map_of (build_dtype_map [(''id'', ''int''), (''name'', ''str'')]) ''name'' = None \<and>
   apply_dtypes pd_astype (parse_metadata ''dtypes=[id:int,name:str]'') ex_users =
     pd_astype ex_users [(''id'', ''Int64'')] \<and>
   pd_astype ex_users (build_dtype_map [(''id'', ''int''), (''name'', ''str'')]) =
     Inr (ex_users\<lparr>df_columns :=
       [\<lparr>col_name = ''id'', col_dtype = DNullableInt64, col_cells = [CInt 1, CInt 2]\<rparr>,
        \<lparr>col_name = ''name'', col_dtype = DObject, col_cells = [CStr ''Alice'', CStr ''Bob'']\<rparr>]\<rparr>) \<and>
   get_column (ex_users\<lparr>df_columns :=
       [\<lparr>col_name = ''id'', col_dtype = DNullableInt64, col_cells = [CInt 1, CInt 2]\<rparr>,
        \<lparr>col_name = ''name'', col_dtype = DObject, col_cells = [CStr ''Alice'', CStr ''Bob'']\<rparr>]\<rparr>) ''name'' =
     get_column ex_users ''name'' \<and>
   distinct (map fst [(''zip'', ''str'')]) \<and>
   map_of (parse_metadata ''dtypes=[zip:str]'') ''dtypes'' = Some (DTypeMap [(''zip'', ''str'')]) \<and>
   list_all (\<lambda>(c, t). t \<noteq> ''int'' \<and> t \<noteq> ''float'') [(''zip'', ''str'')] \<and>
   apply_dtypes pd_astype (parse_metadata ''dtypes=[zip:str]'') ex_users = Inr ex_users"
proof -
  let ?dts = "[(''id'', ''int''), (''name'', ''str'')]"
  let ?md = "parse_metadata ''dtypes=[id:int,name:str]''"
  let ?out = "ex_users\<lparr>df_columns :=
       [\<lparr>col_name = ''id'', col_dtype = DNullableInt64, col_cells = [CInt 1, CInt 2]\<rparr>,
        \<lparr>col_name = ''name'', col_dtype = DObject, col_cells = [CStr ''Alice'', CStr ''Bob'']\<rparr>]\<rparr>"
  have a: "distinct (map fst ?dts)" by simp
  have b: "map_of ?md ''dtypes'' = Some (DTypeMap ?dts)" by code_simp
  have c: "build_dtype_map ?dts = [(''id'', ''Int64'')]" by simp
  have d: "pd_astype ex_users (build_dtype_map ?dts) = Inr ?out" by code_simp
  have e: "map_of ?dts ''id'' = Some ''int''" "map_of ?dts ''name'' = Some ''str''" by simp_all
  have a2: "distinct (map fst [(''zip'', ''str'')])" by simp
  have b2: "map_of (parse_metadata ''dtypes=[zip:str]'') ''dtypes'' = Some (DTypeMap [(''zip'', ''str'')])"
    by code_simp
  have c2: "list_all (\<lambda>(c, t). t \<noteq> ''int'' \<and> t \<noteq> ''float'') [(''zip'', ''str'')]" by simp
  from dtype_casting[OF a b, of "''id''" pd_astype ex_users ?out] e(1)
  have r1: "map_of (build_dtype_map ?dts) ''id'' = Some ''Int64''" by simp
  from dtype_casting[OF a b, of "''name''" pd_astype ex_users ?out] e(2) c d
  have r2: "map_of (build_dtype_map ?dts) ''name'' = None"
    and r3: "apply_dtypes pd_astype ?md ex_users = pd_astype ex_users [(''id'', ''Int64'')]"
    and r4: "get_column ?out ''name'' = get_column ex_users ''name''"
    by simp_all
  from dtype_casting[OF a2 b2, of "''zip''" pd_astype ex_users ex_users] c2
  have r5: "apply_dtypes pd_astype (parse_metadata ''dtypes=[zip:str]'') ex_users = Inr ex_users"
    by blast
  from a b r1 r2 r3 d r4 a2 b2 c2 r5 show ?thesis by blast
qed


text \<open>
  C8.  The code at the failing input: the title line of block \<open>t\<close> tags column \<open>id\<close> as
  \<open>int\<close> and column \<open>zip\<close> as \<open>str\<close>, and the metadata parser reads both tags.  The
  column \<open>zip\<close> is not left as text: it comes back as a column of integers, \<open>01234\<close> read
  as \<open>1234\<close> and \<open>02139\<close> as \<open>2139\<close>.  The CSV reader has inferred the type before the
  tags are looked at, and for the tag \<open>str\<close> the parser requests no cast.
\<close>

theorem str_tag_column_read_as_integers:
  "map_of (header_md (Some ''{dtypes=[id:int,zip:str]}'')) ''dtypes'' =
     Some (DTypeMap [(''id'', ''int''), (''zip'', ''str'')]) \<and>
   build_dtype_map [(''id'', ''int''), (''zip'', ''str'')] = [(''id'', ''Int64'')] \<and>
   parse_jcsv pd_read_csv pd_astype doc_str_tag =
     Inr [(''t'', \<lparr>df_len = 2, df_columns =
       [\<lparr>col_name = ''id'', col_dtype = DNullableInt64, col_cells = [CInt 1, CInt 2]\<rparr>,
        \<lparr>col_name = ''zip'', col_dtype = DInt64, col_cells = [CInt 1234, CInt 2139]\<rparr>]\<rparr>)]"
  by code_simp

section \<open>Round trip through writer and parser\<close>

lemma lstrip_id: "s = [] \<or> \<not> is_space (hd s) \<Longrightarrow> lstrip s = s"
  by (cases s) (auto simp: lstrip_def)

lemma rstrip_id: "s = [] \<or> \<not> is_space (last s) \<Longrightarrow> rstrip s = s"
proof (cases "s = []")
  case True
  then show ?thesis by (simp add: rstrip_def)
next
  case False
  assume "s = [] \<or> \<not> is_space (last s)"
  with False have "\<not> is_space (hd (rev s))" by (simp add: hd_rev)
  moreover from False have "rev s \<noteq> []" by simp
  ultimately have "dropWhile is_space (rev s) = rev s" by (cases "rev s") auto
  then show ?thesis by (simp add: rstrip_def)
qed

lemma strip_id: "s = [] \<or> (\<not> is_space (hd s) \<and> \<not> is_space (last s)) \<Longrightarrow> strip s = s"
  by (auto simp: strip_def lstrip_id rstrip_id)

lemma is_space_nl [simp]: "is_space nl"
  by (simp add: is_space_def nl_def)

lemma rstrip_snoc_nl: "rstrip (s @ [nl]) = rstrip s"
  by (simp add: rstrip_def)

lemma strip_snoc_nl: "strip (s @ [nl]) = strip s"
proof (cases "list_all is_space s")
  case True
  then have a: "dropWhile is_space (s @ [nl]) = []" and b: "dropWhile is_space s = []"
    by (simp_all add: list_all_iff)
  show ?thesis unfolding strip_def lstrip_def a b ..
next
  case False
  then obtain x where "x \<in> set s" "\<not> is_space x" by (auto simp: list_all_iff)
  then have "dropWhile is_space (s @ [nl]) = dropWhile is_space s @ [nl]"
    by (rule dropWhile_append1)
  then show ?thesis by (simp add: strip_def lstrip_def rstrip_snoc_nl)
qed

lemma is_blank_snoc_nl: "is_blank (s @ [nl]) = is_blank s"
  by (simp add: is_blank_def strip_snoc_nl)

lemma is_hash_line_snoc_nl: "is_hash_line (s @ [nl]) = is_hash_line s"
  by (simp add: is_hash_line_def strip_snoc_nl)

lemma split_on_not_Nil [simp]: "split_on c s \<noteq> []"
  by (induction s) (auto split: list.splits)

lemma split_on_none: "c \<notin> set a \<Longrightarrow> split_on c a = [a]"
  by (induction a) (auto split: list.splits)

lemma split_on_first: "c \<notin> set a \<Longrightarrow> split_on c (a @ c # b) = a # split_on c b"
  by (induction a) (auto split: list.splits)

lemma str_nat_not_Nil: "str_nat n \<noteq> []"
  by (subst str_nat.simps) simp

lemma no_double_underscore_free: "CHR ''_'' \<notin> set s \<Longrightarrow> no_double_underscore s"
  by (induction s rule: no_double_underscore.induct) auto

lemma digit_facts:
  assumes "c \<in> set ''0123456789''"
  shows "is_digit c" "\<not> is_space c" "c \<noteq> CHR ''_''" "c \<noteq> CHR ''-''" "c \<noteq> CHR ''+''"
    "c \<noteq> CHR '',''" "c \<noteq> nl" "c \<noteq> CHR 0x0D" "c \<noteq> CHR ''#''"
  using assms by (auto simp: is_digit_def is_space_def nl_def)

lemma py_int_str_nat: "length (str_nat n) \<le> 4300 \<Longrightarrow> py_int (str_nat n) \<noteq> None"
proof -
  assume short: "length (str_nat n) \<le> 4300"
  let ?s = "str_nat n"
  have ne: "?s \<noteq> []" by (rule str_nat_not_Nil)
  have d: "c \<in> set ''0123456789''" if "c \<in> set ?s" for c
    using that str_nat_digits[of n] by blast
  have h: "hd ?s \<in> set ?s" "last ?s \<in> set ?s" using ne by simp_all
  have st: "strip ?s = ?s"
    using ne digit_facts(2)[OF d[OF h(1)]] digit_facts(2)[OF d[OF h(2)]] by (intro strip_id) simp
  have ok: "int_body_ok ?s"
    unfolding int_body_ok_def
  proof (intro conjI)
    show "?s \<noteq> []" by (rule ne)
    show "list_all (\<lambda>c. is_digit c \<or> c = CHR ''_'') ?s"
      using d digit_facts(1) by (auto simp: list_all_iff)
    show "hd ?s \<noteq> CHR ''_''" using digit_facts(3)[OF d[OF h(1)]] .
    show "last ?s \<noteq> CHR ''_''" using digit_facts(3)[OF d[OF h(2)]] .
    show "no_double_underscore ?s"
      using d digit_facts(3) by (intro no_double_underscore_free) blast
  qed
  have nh: "hd ?s \<noteq> CHR ''-''" "hd ?s \<noteq> CHR ''+''"
    using digit_facts(4,5)[OF d[OF h(1)]] by simp_all
  have "length (filter (\<lambda>c. c \<noteq> CHR ''_'') ?s) \<le> 4300"
    by (rule order_trans[OF length_filter_le short])
  then show ?thesis
    using ok nh ne by (simp add: py_int_def st Let_def)
qed

lemma ident_char_facts:
  assumes "is_ident_char c"
  shows "\<not> is_space c" "c \<noteq> CHR '',''" "c \<noteq> nl" "c \<noteq> CHR 0x0D" "c \<noteq> CHR ''#''" "c \<noteq> CHR ''{''"
  using assms by (auto simp: is_ident_char_def is_space_def nl_def)


lemma manifest_cols:
  "map strip (split_on (CHR '','') (strip (''table,start_line,description'' @ [nl]))) =
   [''table'', ''start_line'', ''description'']"
  by code_simp

lemma manifest_marker: "\<not> is_blank (''#manifest'' @ [nl])" "strip (''#manifest'' @ [nl]) = ''#manifest''"
  by code_simp+

lemma ident_facts:
  assumes "is_identifier name"
  shows "name \<noteq> []" "\<not> is_space (hd name)" "\<not> is_space (last name)" "CHR '','' \<notin> set name"
    "nl \<notin> set name" "CHR 0x0D \<notin> set name" "hd name \<noteq> CHR ''#''" "strip name = name"
proof -
  show ne: "name \<noteq> []" using assms by (simp add: is_identifier_def)
  have all: "is_ident_char c" if "c \<in> set name" for c
    using assms that by (simp add: is_identifier_def list_all_iff)
  have h: "hd name \<in> set name" "last name \<in> set name" using ne by simp_all
  show a: "\<not> is_space (hd name)" using ident_char_facts(1)[OF all[OF h(1)]] .
  show b: "\<not> is_space (last name)" using ident_char_facts(1)[OF all[OF h(2)]] .
  show "CHR '','' \<notin> set name" using ident_char_facts(2) all by blast
  show "nl \<notin> set name" using ident_char_facts(3) all by blast
  show "CHR 0x0D \<notin> set name" using ident_char_facts(4) all by blast
  show "hd name \<noteq> CHR ''#''" using ident_char_facts(5)[OF all[OF h(1)]] .
  show "strip name = name" using a b by (intro strip_id) simp
qed

lemma str_nat_facts:
  shows "CHR '','' \<notin> set (str_nat n)" "strip (str_nat n) = str_nat n" "CHR 0x0D \<notin> set (str_nat n)"
proof -
  let ?s = "str_nat n"
  have ne: "?s \<noteq> []" by (rule str_nat_not_Nil)
  have d: "c \<in> set ''0123456789''" if "c \<in> set ?s" for c
    using that str_nat_digits[of n] by blast
  have h: "hd ?s \<in> set ?s" "last ?s \<in> set ?s" using ne by simp_all
  show "CHR '','' \<notin> set ?s" using d digit_facts(6) by blast
  show "CHR 0x0D \<notin> set ?s" using d digit_facts(8) by blast
  show "strip ?s = ?s"
    using digit_facts(2)[OF d[OF h(1)]] digit_facts(2)[OF d[OF h(2)]] by (intro strip_id) simp
qed

lemma row_line_empty: "row_line Map.empty n name = name @ '','' @ str_nat n @ '',''"
  by (simp add: row_line_def)

lemma manifest_row_step:
  assumes "is_identifier name" and "length (str_nat n) \<le> 4300"
  shows "\<exists>k. manifest_rows [''table'', ''start_line'', ''description'']
             ((row_line Map.empty n name @ [nl]) # ls) mm =
           manifest_rows [''table'', ''start_line'', ''description''] ls (dict_set mm name k)"
proof -
  let ?r = "row_line Map.empty n name"
  note f = ident_facts[OF assms(1)]
  have r: "?r = name @ CHR '','' # (str_nat n @ CHR '','' # [])"
    by (simp add: row_line_empty)
  have rne: "?r \<noteq> []" using f(1) by (simp add: row_line_empty)
  have hdr: "hd ?r = hd name" using f(1) by (simp add: row_line_empty)
  have lastr: "last ?r = CHR '',''" by (simp add: row_line_empty)
  have st: "strip (?r @ [nl]) = ?r"
    unfolding strip_snoc_nl using rne hdr lastr f(2) by (intro strip_id) (simp add: is_space_def)
  have nh: "\<not> startswith ?r ''#''"
    using rne hdr f(7) by (cases ?r) (auto simp: startswith_def)
  have sp: "split_on (CHR '','') ?r = [name, str_nat n, []]"
    unfolding r by (simp add: split_on_first f(4) str_nat_facts(1))
  have vals: "map strip (split_on (CHR '','') ?r) = [name, str_nat n, []]"
    unfolding sp by (simp add: f(8) str_nat_facts(2))
  have row: "dict_of (zip [''table'', ''start_line'', ''description''] [name, str_nat n, []]) =
     [(''table'', name), (''start_line'', str_nat n), (''description'', [])]"
    by (simp add: dict_of_def)
  have l1: "map_of (dict_of (zip [''table'', ''start_line'', ''description''] [name, str_nat n, []]))
      ''start_line'' = Some (str_nat n)"
    unfolding row by simp
  have l2: "map_of (dict_of (zip [''table'', ''start_line'', ''description''] [name, str_nat n, []]))
      ''table'' = Some name"
    unfolding row by simp
  obtain k where k: "py_int (str_nat n) = Some k"
    using py_int_str_nat[OF assms(2)] by auto
  have "manifest_rows [''table'', ''start_line'', ''description''] ((?r @ [nl]) # ls) mm =
        manifest_rows [''table'', ''start_line'', ''description''] ls (dict_set mm name k)"
    by (subst manifest_rows.simps) (simp only: st vals l1 l2 k Let_def rne nh simp_thms if_False option.case)
  then show ?thesis by blast
qed

lemma manifest_rows_stop:
  "rest = [] \<or> is_blank (hd rest) \<Longrightarrow> manifest_rows cols rest mm = Inr (mm, rest)"
  by (cases rest) (auto simp: is_blank_def)

lemma manifest_rows_all:
  assumes "list_all (\<lambda>(name, n). is_identifier name \<and> length (str_nat n) \<le> 4300) ps" and "rest = [] \<or> is_blank (hd rest)"
  shows "\<exists>mm'. manifest_rows [''table'', ''start_line'', ''description'']
           (map (\<lambda>(name, n). row_line Map.empty n name @ [nl]) ps @ rest) mm = Inr (mm', rest)"
  using assms(1)
proof (induction ps arbitrary: mm)
  case Nil
  then show ?case using manifest_rows_stop[OF assms(2)] by simp
next
  case (Cons p ps)
  obtain name n where p: "p = (name, n)" by (cases p)
  from Cons.prems p have i: "is_identifier name" "length (str_nat n) \<le> 4300" and r: "list_all (\<lambda>(name, n). is_identifier name \<and> length (str_nat n) \<le> 4300) ps"
    by simp_all
  from manifest_row_step[OF i, of "map (\<lambda>(name, n). row_line Map.empty n name @ [nl]) ps @ rest" mm]
  obtain k where "manifest_rows [''table'', ''start_line'', ''description'']
             ((row_line Map.empty n name @ [nl]) # map (\<lambda>(name, n). row_line Map.empty n name @ [nl]) ps @ rest) mm =
           manifest_rows [''table'', ''start_line'', ''description'']
             (map (\<lambda>(name, n). row_line Map.empty n name @ [nl]) ps @ rest) (dict_set mm name k)"
    by blast
  with Cons.IH[OF r, of "dict_set mm name k"] p show ?case by simp
qed

lemma parse_manifest_written:
  assumes "list_all (\<lambda>(name, n). is_identifier name \<and> length (str_nat n) \<le> 4300) ps" and "rest = [] \<or> is_blank (hd rest)"
  shows "\<exists>mm'. parse_manifest ((''#manifest'' @ [nl]) # (''table,start_line,description'' @ [nl]) #
           map (\<lambda>(name, n). row_line Map.empty n name @ [nl]) ps @ rest) = Inr (mm', rest)"
proof -
  from manifest_rows_all[OF assms, of "[]"] obtain mm' where
    "manifest_rows [''table'', ''start_line'', ''description'']
           (map (\<lambda>(name, n). row_line Map.empty n name @ [nl]) ps @ rest) [] = Inr (mm', rest)"
    by blast
  then have "parse_manifest ((''#manifest'' @ [nl]) # (''table,start_line,description'' @ [nl]) #
           map (\<lambda>(name, n). row_line Map.empty n name @ [nl]) ps @ rest) = Inr (mm', rest)"
    unfolding parse_manifest_def using manifest_marker manifest_cols by simp
  then show ?thesis by blast
qed


lemma framed_facts:
  assumes "framed w (name, df)"
  shows "is_identifier name" "clean_line (block_meta Map.empty name df)"
    "map_of (parse_metadata (block_meta Map.empty name df)) ''refs'' = None"
    "w df = Inr (unlines (csv_lines_of w df))" "csv_lines_of w df \<noteq> []"
    "list_all (\<lambda>l. clean_line l \<and> \<not> is_blank l) (csv_lines_of w df)"
    "list_all (\<lambda>l. \<not> is_hash_line l) (tl (csv_lines_of w df))"
  using assms by (auto simp: framed_def csv_lines_of_def split: sum.splits)

lemma write_blocks_seq:
  "list_all (framed w) ts \<Longrightarrow> write_blocks w Map.empty ts = Inr (concat (block_seq w ts))"
proof (induction ts)
  case Nil
  then show ?case by simp
next
  case (Cons t ts)
  obtain name df where t: "t = (name, df)" by (cases t)
  from Cons.prems t have f: "framed w (name, df)" and r: "list_all (framed w) ts" by simp_all
  from Cons.IH[OF r] framed_facts(4)[OF f] t show ?case
    by (simp add: header_line_def unlines_def)
qed

lemma header_match_body:
  assumes "list_all is_ident_char name" and "name \<noteq> []"
    and "body \<noteq> []" and "hd body = CHR ''{''" and "last body = CHR ''}''"
    and "2 \<le> length body" and "nl \<notin> set body"
  shows "header_re_match (CHR ''#'' # name @ body) = Some (name, Some body)"
proof -
  have nid: "\<not> is_ident_char (hd body)"
    using assms(4) by (simp add: is_ident_char_def)
  obtain b bs where body: "body = b # bs" using assms(3) by (cases body) auto
  have tw: "takeWhile is_ident_char (name @ body) = name"
    using assms(1) nid body by (simp add: takeWhile_append2 list_all_iff)
  have dw: "dropWhile is_ident_char (name @ body) = body"
    using assms(1) nid body by (simp add: dropWhile_append2 list_all_iff)
  have "\<not> is_space (last body)" using assms(5) by (simp add: is_space_def)
  then have rs: "rstrip body = body" by (intro rstrip_id) simp
  show ?thesis
    unfolding header_re_match_def
    by (simp only: list.case tw dw rs Let_def assms simp_thms if_True if_False not_False_eq_True)
qed

lemma header_match_written:
  assumes "is_identifier name" and "clean_line meta"
  shows "header_re_match (strip ((''#'' @ name @ ''{'' @ meta @ ''}'') @ [nl])) =
           Some (name, Some (''{'' @ meta @ ''}''))"
proof -
  define body where "body = ''{'' @ meta @ ''}''"
  have all: "list_all is_ident_char name" and ne: "name \<noteq> []"
    using assms(1) by (simp_all add: is_identifier_def)
  have b: "body \<noteq> []" "hd body = CHR ''{''" "last body = CHR ''}''" "2 \<le> length body"
    by (simp_all add: body_def)
  have nlm: "nl \<notin> set body"
    using assms(2) by (simp add: clean_line_def nl_def body_def)
  have h: "''#'' @ name @ ''{'' @ meta @ ''}'' = CHR ''#'' # name @ body"
    by (simp add: body_def)
  have "\<not> is_space (last (CHR ''#'' # name @ body))"
    using b(1,3) by (simp add: is_space_def)
  moreover have "\<not> is_space (hd (CHR ''#'' # name @ body))" by (simp add: is_space_def)
  ultimately have st: "strip ((CHR ''#'' # name @ body) @ [nl]) = CHR ''#'' # name @ body"
    unfolding strip_snoc_nl by (intro strip_id) blast
  show ?thesis
    unfolding h st using header_match_body[OF all ne b nlm] by (simp add: body_def)
qed

lemma header_md_written: "header_md (Some (''{'' @ meta @ ''}'')) = parse_metadata meta"
  by (simp add: header_md_def slice_inner_def)

lemma rstrip_nl_clean: "clean_line l \<Longrightarrow> rstrip_nl (l @ [nl]) = l"
  by (simp add: clean_line_def rstrip_nl_line)

lemma not_hash_blank: "\<not> is_hash_line [nl]" "is_blank [nl]"
  by code_simp+

lemma block_csv_written:
  assumes "list_all (\<lambda>l. clean_line l \<and> \<not> is_blank l) ls" and "ls \<noteq> []"
    and that: "list_all is_blank blanks"
  shows "block_csv (hd ls @ [nl]) (map (\<lambda>l. l @ [nl]) (tl ls) @ blanks) = join [nl] ls"
proof -
  obtain c rows where ls: "ls = c # rows" using assms(2) by (cases ls) auto
  have c: "clean_line c" and rows: "list_all (\<lambda>l. clean_line l \<and> \<not> is_blank l) rows"
    using assms(1) ls by simp_all
  have f1: "filter (\<lambda>ln. \<not> is_blank ln) (map (\<lambda>l. l @ [nl]) rows) = map (\<lambda>l. l @ [nl]) rows"
    using rows by (induction rows) (simp_all add: is_blank_snoc_nl)
  have f2: "filter (\<lambda>ln. \<not> is_blank ln) blanks = []"
    using that by (induction blanks) simp_all
  have m: "map (rstrip_nl \<circ> (\<lambda>l. l @ [nl])) rows = rows"
    using rows by (induction rows) (simp_all add: rstrip_nl_clean)
  show ?thesis
    unfolding block_csv_def ls by (simp add: f1 f2 m rstrip_nl_clean[OF c])
qed

lemma dict_set_fresh: "k \<notin> fst ` set d \<Longrightarrow> dict_set d k v = d @ [(k, v)]"
  by (induction d) auto


lemma terminated_snoc: "clean_line l \<Longrightarrow> terminated (l @ [nl])"
  by (simp add: terminated_def clean_line_def nl_def)

lemma universal_newlines_id: "CHR 0x0D \<notin> set s \<Longrightarrow> universal_newlines s = s"
  by (induction s rule: universal_newlines.induct) auto

lemma keepends_terminated:
  assumes "terminated x"
  shows "keepends (x @ rest) = x # keepends rest"
proof -
  from assms have x: "x = butlast x @ [nl]" and f: "nl \<notin> set (butlast x)"
    by (auto simp: terminated_def) (metis append_butlast_last_id)
  have "keepends (butlast x @ nl # rest) = (butlast x @ [nl]) # keepends rest"
    using f by (rule keepends_line)
  then show ?thesis using x by (metis append_Cons append_Nil append_assoc)
qed

lemma readlines_concat:
  "list_all terminated ls \<Longrightarrow> readlines (concat ls) = ls"
proof -
  assume a: "list_all terminated ls"
  then have "CHR 0x0D \<notin> set (concat ls)"
    by (auto simp: list_all_iff terminated_def)
  then have u: "universal_newlines (concat ls) = concat ls" by (rule universal_newlines_id)
  have "keepends (concat ls) = ls"
    using a by (induction ls) (simp_all add: keepends_terminated)
  with u show ?thesis by (simp add: readlines_def)
qed

lemma header_md_written_Cons: "header_md (Some (CHR ''{'' # meta @ ''}'')) = parse_metadata meta"
  by (simp add: header_md_def slice_inner_def)

lemma resolve_refs_norefs:
  "list_all (\<lambda>(n, md). map_of md ''refs'' = None) mds \<Longrightarrow> resolve_refs tables mds = Inr tables"
  by (induction mds) auto

lemma header_line_hash:
  assumes "framed w (name, df)"
  shows "is_hash_line (header_line Map.empty (name, df) @ [nl])"
    and "header_re_match (strip (header_line Map.empty (name, df) @ [nl])) =
           Some (name, Some (''{'' @ block_meta Map.empty name df @ ''}''))"
proof -
  note f = framed_facts[OF assms]
  show m: "header_re_match (strip (header_line Map.empty (name, df) @ [nl])) =
           Some (name, Some (''{'' @ block_meta Map.empty name df @ ''}''))"
    unfolding header_line_def prod.case by (rule header_match_written[OF f(1,2)])
  then show "is_hash_line (header_line Map.empty (name, df) @ [nl])"
    by (rule header_is_hash_line)
qed

lemma block_seq_head:
  assumes "list_all (framed w) ts"
  shows "block_seq w ts = [] \<or> is_blank (hd (block_seq w ts))"
  by (cases ts) (auto simp: not_hash_blank)

lemma block_seq_tail_head:
  assumes "list_all (framed w) ts" and "ts \<noteq> []"
  shows "block_seq w ts = [nl] # tl (block_seq w ts)" "is_hash_line (hd (tl (block_seq w ts)))"
proof -
  obtain name df ts' where ts: "ts = (name, df) # ts'" using assms(2) by (cases ts) auto
  show "block_seq w ts = [nl] # tl (block_seq w ts)" using ts by simp
  from assms(1) ts have "framed w (name, df)" by simp
  from header_line_hash(1)[OF this] show "is_hash_line (hd (tl (block_seq w ts)))"
    using ts by simp
qed

lemma scan_block_seq:
  "list_all (framed w) ts \<Longrightarrow>
   list_all2 (\<lambda>t t'. fst t' = fst t \<and> reread rc at w t = Inr (snd t')) ts out \<Longrightarrow>
   distinct (map fst ts) \<Longrightarrow>
   fst ` set ts \<inter> fst ` set t = {} \<Longrightarrow> fst ` set ts \<inter> fst ` set m = {} \<Longrightarrow>
   scan_blocks rc at (block_seq w ts) t m =
     Inr (t @ out,
          m @ map (\<lambda>(name, df). (name, parse_metadata (block_meta Map.empty name df))) ts)"
proof (induction ts arbitrary: t m out)
  case Nil
  then show ?case by (simp add: scan_blocks.simps)
next
  case (Cons entry ts)
  obtain name df where entry: "entry = (name, df)" by (cases entry)
  from Cons.prems(2) entry obtain df' out' where
    out: "out = (name, df') # out'" and rr: "reread rc at w (name, df) = Inr df'"
    and rest_out: "list_all2 (\<lambda>t t'. fst t' = fst t \<and> reread rc at w t = Inr (snd t')) ts out'"
    by (cases out) auto
  from Cons.prems(1) entry have fr: "framed w (name, df)" and frs: "list_all (framed w) ts"
    by simp_all
  note f = framed_facts[OF fr]
  define ls where "ls = csv_lines_of w df"
  define md where "md = parse_metadata (block_meta Map.empty name df)"
  define blanks where "blanks = (if ts = [] then [] else [[nl]])"
  define rest where "rest = (if ts = [] then [] else tl (block_seq w ts))"
  define body where "body = map (\<lambda>l. l @ [nl]) (tl ls) @ blanks"
  define h where "h = header_line Map.empty (name, df) @ [nl]"
  have lsne: "ls \<noteq> []" using f(5) by (simp add: ls_def)
  have seq_ts: "block_seq w ts = blanks @ rest"
    using block_seq_tail_head(1)[OF frs] by (auto simp: blanks_def rest_def)
  have lines: "map (\<lambda>l. l @ [nl]) ls = (hd ls @ [nl]) # map (\<lambda>l. l @ [nl]) (tl ls)"
    using lsne by (cases ls) simp_all
  have shape: "block_seq w (entry # ts) = [nl] # h # [] @ (hd ls @ [nl]) # body @ rest"
    unfolding entry block_seq.simps ls_def[symmetric] h_def[symmetric] lines seq_ts body_def by simp
  have hm: "header_re_match (strip h) = Some (name, Some (''{'' @ block_meta Map.empty name df @ ''}''))"
    unfolding h_def by (rule header_line_hash(2)[OF fr])
  have cnb: "\<not> is_blank (hd ls @ [nl])"
    using f(6) lsne unfolding ls_def[symmetric] by (cases ls) (simp_all add: is_blank_snoc_nl)
  have rows_nh: "list_all (\<lambda>ln. \<not> is_hash_line ln) (map (\<lambda>l. l @ [nl]) (tl ls))"
    using f(7) unfolding ls_def[symmetric] by (simp add: list_all_iff is_hash_line_snoc_nl)
  have bl: "list_all is_blank blanks" by (simp add: blanks_def not_hash_blank)
  have bod: "list_all (\<lambda>ln. \<not> is_hash_line ln) body"
    using rows_nh by (simp add: body_def blanks_def not_hash_blank)
  have rh: "rest = [] \<or> is_hash_line (hd rest)"
    using block_seq_tail_head(2)[OF frs] by (simp add: rest_def)
  have csv: "block_csv (hd ls @ [nl]) body = join [nl] ls"
    unfolding body_def using f(6)[unfolded ls_def[symmetric]] lsne bl by (rule block_csv_written)
  have bt: "build_table rc at (header_md (Some (''{'' @ block_meta Map.empty name df @ ''}'')))
              (block_csv (hd ls @ [nl]) body) = Inr df'"
    using rr unfolding csv header_md_written by (simp add: reread_def ls_def)
  have skip: "scan_blocks rc at ([nl] # xs) t' m' = scan_blocks rc at xs t' m'" for xs t' m'
    by (rule scan_skip_line) (simp add: blank_no_header not_hash_blank)
  have fresh_t: "name \<notin> fst ` set t" and fresh_m: "name \<notin> fst ` set m"
    using Cons.prems(4,5) entry by auto
  have step: "scan_blocks rc at (block_seq w (entry # ts)) t m =
      scan_blocks rc at rest (t @ [(name, df')]) (m @ [(name, md)])"
    unfolding shape skip
    using scan_block_step[OF hm _ cnb bod rh, of "[]" rc at t m] bt
    by (simp add: header_md_written_Cons dict_set_fresh[OF fresh_t] dict_set_fresh[OF fresh_m] md_def)
  have cont: "scan_blocks rc at rest t' m' = scan_blocks rc at (block_seq w ts) t' m'" for t' m'
  proof (cases "ts = []")
    case True
    then show ?thesis by (simp add: rest_def)
  next
    case False
    then show ?thesis unfolding seq_ts by (simp add: blanks_def skip)
  qed
  have d: "distinct (map fst ts)" and nin: "name \<notin> fst ` set ts"
    using Cons.prems(3) entry by auto
  have ft: "fst ` set ts \<inter> fst ` set (t @ [(name, df')]) = {}"
    using Cons.prems(4) nin by auto
  have fm: "fst ` set ts \<inter> fst ` set (m @ [(name, md)]) = {}"
    using Cons.prems(5) nin by auto
  from Cons.IH[OF frs rest_out d ft fm]
  show ?case unfolding step cont by (simp add: out entry md_def)
qed


lemma clean_row_line:
  assumes "is_identifier name"
  shows "clean_line (row_line Map.empty n name)"
  using ident_facts(5,6)[OF assms] nl_notin_str_nat[of n] str_nat_facts(3)[of n]
  by (simp add: row_line_empty clean_line_def nl_def)

lemma clean_header_line:
  assumes "framed w (name, df)"
  shows "clean_line (header_line Map.empty (name, df))"
  using ident_facts(5,6)[OF framed_facts(1)[OF assms]] framed_facts(2)[OF assms]
  by (simp add: header_line_def clean_line_def nl_def)

lemma block_seq_terminated:
  "list_all (framed w) ts \<Longrightarrow> list_all terminated (block_seq w ts)"
proof (induction ts)
  case Nil
  then show ?case by simp
next
  case (Cons entry ts)
  obtain name df where entry: "entry = (name, df)" by (cases entry)
  from Cons.prems entry have fr: "framed w (name, df)" and frs: "list_all (framed w) ts"
    by simp_all
  have a: "terminated [nl]" by (simp add: terminated_def nl_def)
  have b: "terminated (header_line Map.empty (name, df) @ [nl])"
    using clean_header_line[OF fr] by (rule terminated_snoc)
  have c: "list_all terminated (map (\<lambda>l. l @ [nl]) (csv_lines_of w df))"
    using framed_facts(6)[OF fr] by (simp add: list_all_iff terminated_snoc)
  from a b c Cons.IH[OF frs] entry show ?case by simp
qed

text \<open>
  The framing of the container loses nothing.  Let the table names be distinct identifiers
  of the header pattern and every table be \<open>framed\<close>: its metadata and CSV lines hold no
  line break or carriage return, its CSV lines are not blank and, after the column line,
  start with no \<open>#\<close>, and its metadata parses to no \<open>refs\<close> key.  Then the writer succeeds
  and the parser, on the text written, returns the same names in the same order, each
  with the table that the CSV reader and the caster rebuild from that table's own CSV
  text under the dtypes the writer recorded (\<open>reread\<close>).  What a round trip changes in a
  table is therefore what \<open>to_csv\<close>, \<open>read_csv\<close> and the cast change in it.
\<close>

lemma round_trip_framing:
  assumes "distinct (map fst T)"
    and "list_all (framed to_csv) T"
    and "list_all (\<lambda>i. length (str_nat (start_line_at T i)) \<le> 4300) [0..<length T]"
    and "list_all2 (\<lambda>t t'. fst t' = fst t \<and> reread read_csv astype to_csv t = Inr (snd t')) T out"
  shows "\<exists>text. export_jcsv to_csv T Map.empty = Inr text \<and>
                 parse_jcsv read_csv astype text = Inr out"
proof -
  define ps where "ps = map (\<lambda>i. (fst (T ! i), start_line_at T i)) [0..<length T]"
  define rows where "rows = map (\<lambda>(name, n). row_line Map.empty n name @ [nl]) ps"
  define blocks where "blocks = block_seq to_csv T"
  define all_lines where
    "all_lines = (''#manifest'' @ [nl]) # (''table,start_line,description'' @ [nl]) # rows @ blocks"
  have fr: "framed to_csv (name, df)" if "(name, df) \<in> set T" for name df
    using assms(2) that by (simp add: list_all_iff)
  have idn: "is_identifier (fst (T ! i))" if "i < length T" for i
  proof -
    obtain name df where t: "T ! i = (name, df)" by (cases "T ! i")
    with that have "(name, df) \<in> set T" by (metis nth_mem)
    from framed_facts(1)[OF fr[OF this]] t show ?thesis by simp
  qed
  have ids: "list_all (\<lambda>(name, n). is_identifier name \<and> length (str_nat n) \<le> 4300) ps"
    using idn assms(3) by (simp add: ps_def list_all_iff)
  have w: "write_blocks to_csv Map.empty T = Inr (concat blocks)"
    unfolding blocks_def by (rule write_blocks_seq[OF assms(2)])
  have rt: "rows_text Map.empty T = concat rows"
    by (simp add: rows_text_def rows_def ps_def comp_def)
  have e: "export_jcsv to_csv T Map.empty = Inr (concat all_lines)"
    unfolding export_jcsv_text[OF assms(1) w] rt all_lines_def
    by (simp add: manifest_head_def)
  have t1: "terminated (''#manifest'' @ [nl])" "terminated (''table,start_line,description'' @ [nl])"
    by (simp_all add: terminated_def nl_def)
  have "terminated (row_line Map.empty n name @ [nl])" if "is_identifier name" for name n
    using clean_row_line[OF that] by (rule terminated_snoc)
  then have t2: "list_all terminated rows"
    using idn by (simp add: rows_def ps_def list_all_iff)
  have t3: "list_all terminated blocks"
    unfolding blocks_def by (rule block_seq_terminated[OF assms(2)])
  have "list_all terminated all_lines"
    using t1 t2 t3 by (simp add: all_lines_def)
  then have rl: "readlines (concat all_lines) = all_lines"
    by (rule readlines_concat)
  have bh: "blocks = [] \<or> is_blank (hd blocks)"
    unfolding blocks_def by (rule block_seq_head[OF assms(2)])
  from parse_manifest_written[OF ids bh] obtain mm' where
    pm: "parse_manifest all_lines = Inr (mm', blocks)"
    unfolding all_lines_def rows_def by blast
  have sc: "scan_blocks read_csv astype blocks [] [] =
     Inr ([] @ out,
          [] @ map (\<lambda>(name, df). (name, parse_metadata (block_meta Map.empty name df))) T)"
    unfolding blocks_def by (rule scan_block_seq[OF assms(2,4,1)]) simp_all
  have nr: "list_all (\<lambda>(n, md). map_of md ''refs'' = None)
          (map (\<lambda>(name, df). (name, parse_metadata (block_meta Map.empty name df))) T)"
    using framed_facts(3)[OF fr] by (auto simp: list_all_iff)
  have "parse_lines read_csv astype all_lines = Inr out"
    unfolding parse_lines_def pm using sc resolve_refs_norefs[OF nr, of out] by simp
  then have "parse_jcsv read_csv astype (concat all_lines) = Inr out"
    by (simp add: parse_jcsv_def rl)
  with e show ?thesis by blast
qed

lemma round_trip_framing_example:
  "distinct (map fst ex_round_trip) \<and>
   list_all (framed pd_to_csv) ex_round_trip \<and>
   list_all (\<lambda>i. length (str_nat (start_line_at ex_round_trip i)) \<le> 4300)
     [0..<length ex_round_trip] \<and>
   list_all2 (\<lambda>t t'. fst t' = fst t \<and> reread pd_read_csv pd_astype pd_to_csv t = Inr (snd t'))
     ex_round_trip [(''prices'', ex_prices), (''users'', ex_users_reread)] \<and>
   (\<exists>text. export_jcsv pd_to_csv ex_round_trip Map.empty = Inr text \<and>
      parse_jcsv pd_read_csv pd_astype text = Inr [(''prices'', ex_prices), (''users'', ex_users_reread)])"
proof -
  have a: "distinct (map fst ex_round_trip)" by code_simp
  have b: "list_all (framed pd_to_csv) ex_round_trip" by code_simp
  have c: "list_all2 (\<lambda>t t'. fst t' = fst t \<and> reread pd_read_csv pd_astype pd_to_csv t = Inr (snd t'))
     ex_round_trip [(''prices'', ex_prices), (''users'', ex_users_reread)]" by code_simp
  have d: "list_all (\<lambda>i. length (str_nat (start_line_at ex_round_trip i)) \<le> 4300)
     [0..<length ex_round_trip]" by code_simp
  from round_trip_framing[OF a b d c] a b c d show ?thesis by blast
qed

text \<open>
  C5.  The code at the failing input: the table map has the one table \<open>t\<close> with the one
  text column \<open>zip\<close>, whose values \<open>01234\<close> and \<open>02139\<close> need no quoting.  The writer
  records the tag \<open>zip:str\<close> and writes the values as they are, without a quote; the
  parser, on the text written, returns the column as integers, \<open>1234\<close> and \<open>2139\<close>.  So
  \<open>parse (write T)\<close> is not \<open>T\<close>: the rows differ.
\<close>

theorem round_trip_changes_text_column:
  "export_jcsv pd_to_csv [(''t'', ex_zip)] Map.empty = Inr doc_zip \<and>
   dquote \<notin> set doc_zip \<and>
   parse_jcsv pd_read_csv pd_astype doc_zip =
     Inr [(''t'', \<lparr>df_len = 2, df_columns =
       [\<lparr>col_name = ''zip'', col_dtype = DInt64, col_cells = [CInt 1234, CInt 2139]\<rparr>]\<rparr>)] \<and>
   parse_jcsv pd_read_csv pd_astype doc_zip \<noteq> Inr [(''t'', ex_zip)]"
  by code_simp

section \<open>Metadata grammar: the documented example\<close>

text \<open>
  C7.  On \<open>dtypes=[id:int,name:str],refs=[orders]\<close> the metadata parser returns
  \<open>{dtypes: {id: int, name: str}, refs: [orders]}\<close>.  The \<open>dtypes\<close> list is re-parsed
  into a column-to-type dict, each item split on its first colon, an item without a colon
  is dropped (second conjunct), and \<open>refs\<close> stays a list of strings.
\<close>

theorem parse_metadata_documented_example:
  "parse_metadata ''dtypes=[id:int,name:str],refs=[orders]'' =
     [(''dtypes'', DTypeMap [(''id'', ''int''), (''name'', ''str'')]),
      (''refs'', Items [''orders''])]
   \<and> parse_metadata ''dtypes=[id:int,oops,t:a:b],refs=[orders]'' =
     [(''dtypes'', DTypeMap [(''id'', ''int''), (''t'', ''a:b'')]),
      (''refs'', Items [''orders''])]"
  by code_simp

end
